theory Spec2Isabelle
  imports Main
begin

section \<open>Data model\<close>

text \<open>
  The route handler of \<^verbatim>\<open>src/app/seed/route.ts\<close> seeds four tables from four
  fixture arrays imported from \<^verbatim>\<open>../lib/placeholder-data\<close>. That module is not
  part of the sources, so the four arrays are a parameter of the model
  (\<open>placeholder_data\<close>). Field names carry a one-letter prefix because the
  four record shapes share the names \<^verbatim>\<open>id\<close>, \<^verbatim>\<open>name\<close> and \<^verbatim>\<open>email\<close>.
  Identifiers are compared as text.
\<close>

type_synonym uuid = string

record User =
  u_id :: uuid
  u_name :: string
  u_email :: string
  u_password :: string

record Customer =
  c_id :: uuid
  c_name :: string
  c_email :: string
  c_image_url :: string

record Invoice =
  i_customer_id :: uuid
  i_amount :: int
  i_status :: string
  i_date :: string

record Revenue =
  r_month :: string
  r_revenue :: int

record placeholder_data =
  users :: "User list"
  customers :: "Customer list"
  invoices :: "Invoice list"
  revenue :: "Revenue list"

text \<open>
  A row of \<^verbatim>\<open>invoices\<close> is the four inserted columns plus the \<^verbatim>\<open>id\<close> column,
  which the INSERT of \<^verbatim>\<open>seedInvoices\<close> never supplies and the server fills
  from \<^verbatim>\<open>DEFAULT uuid_generate_v4()\<close>. Rows of the other three tables have
  exactly the inserted columns; a \<^verbatim>\<open>users\<close> row holds the hashed password.
\<close>

record InvoiceRow =
  row_id :: uuid
  row_invoice :: Invoice

text \<open>
  The schema state: whether the \<^verbatim>\<open>uuid-ossp\<close> extension is installed, and for
  each table whether it exists (\<open>None\<close>: it does not) with its rows in
  insertion order.
\<close>

record database =
  uuid_ossp :: bool
  t_users :: "User list option"
  t_customers :: "Customer list option"
  t_invoices :: "InvoiceRow list option"
  t_revenue :: "Revenue list option"

definition empty_database :: database where
  "empty_database =
     \<lparr>uuid_ossp = False, t_users = None, t_customers = None,
      t_invoices = None, t_revenue = None\<rparr>"

section \<open>The connection and its statements\<close>

text \<open>
  Every statement the handler sends through \<^verbatim>\<open>client.sql\<close>. \<open>InsertUser\<close>
  carries the row as sent, that is with the hashed password.
\<close>

datatype stmt =
    Begin
  | Commit
  | Rollback
  | CreateExtension
  | CreateUsers
  | CreateInvoices
  | CreateCustomers
  | CreateRevenue
  | InsertUser User
  | InsertInvoice Invoice
  | InsertCustomer Customer
  | InsertRevenue Revenue

datatype error =
    StmtFailed
  | TxAborted
  | UndefinedTable
  | UniqueViolation
  | HashFailed

text \<open>
  Transaction status of the session. \<open>InTx t\<close> and \<open>Aborted t\<close> remember the
  tables as they were at \<^verbatim>\<open>BEGIN\<close>; \<open>Aborted\<close> is the state after a
  statement failed inside a transaction block, where the server refuses
  every statement but \<^verbatim>\<open>ROLLBACK\<close> and \<^verbatim>\<open>COMMIT\<close>.
\<close>

datatype tx = Idle | InTx database | Aborted database

text \<open>
  \<^verbatim>\<open>const client = await db.connect()\<close>: one module-level connection, shared by
  all invocations. \<open>cur\<close> is what the session sees, \<open>clock\<close> counts the calls made
  to the outside world (it indexes the environment below), and \<open>log\<close> records
  the statements in the order the client sent them.
\<close>

record client =
  cur :: database
  txn :: tx
  clock :: nat
  log :: "stmt list"

text \<open>
  What the code cannot decide by itself, indexed by \<open>clock\<close>:
  \<^item> \<open>stmt_fails k\<close>: the statement sent at time \<open>k\<close> is rejected for a reason outside
    the modelled constraints (the transport fails, a value does not fit its
    column type, ...);
  \<^item> \<open>uuid_generate_v4 k\<close>: the identifier the server generates at time \<open>k\<close>;
  \<^item> \<open>bcrypt_hash k p rounds\<close>: the result of \<^verbatim>\<open>bcrypt.hash(p, rounds)\<close> started at
    time \<open>k\<close> (the salt is random, so it depends on \<open>k\<close>); \<open>None\<close> when it rejects;
  \<^item> \<open>settled_before k\<close>: of the hashing that completes at time \<open>k\<close>, whether the
    responses to all statements sent so far had reached the client before it
    completed.
\<close>

record env =
  stmt_fails :: "nat \<Rightarrow> bool"
  uuid_generate_v4 :: "nat \<Rightarrow> uuid"
  bcrypt_hash :: "nat \<Rightarrow> string \<Rightarrow> nat \<Rightarrow> string option"
  settled_before :: "nat \<Rightarrow> bool"

fun abort :: "tx \<Rightarrow> tx" where
  "abort Idle = Idle"
| "abort (InTx t) = Aborted t"
| "abort (Aborted t) = Aborted t"

text \<open>
  The data and schema statements on the tables. \<^verbatim>\<open>CREATE ... IF NOT EXISTS\<close>
  leaves an existing object alone. \<^verbatim>\<open>ON CONFLICT (id) DO NOTHING\<close> skips the row
  when the \<^verbatim>\<open>id\<close> is taken, and only then; \<^verbatim>\<open>users.email\<close> is \<^verbatim>\<open>UNIQUE\<close> too,
  and a clash there is an error. The INSERT of \<^verbatim>\<open>seedInvoices\<close> names the
  generated \<^verbatim>\<open>id\<close> as its conflict target; \<^verbatim>\<open>seedRevenue\<close> names \<^verbatim>\<open>month\<close>.
\<close>

fun run_stmt :: "env \<Rightarrow> nat \<Rightarrow> stmt \<Rightarrow> database \<Rightarrow> error + database" where
  "run_stmt e k CreateExtension d = Inr (d\<lparr>uuid_ossp := True\<rparr>)"
| "run_stmt e k CreateUsers d =
     Inr (case t_users d of None \<Rightarrow> d\<lparr>t_users := Some []\<rparr> | Some _ \<Rightarrow> d)"
| "run_stmt e k CreateInvoices d =
     Inr (case t_invoices d of None \<Rightarrow> d\<lparr>t_invoices := Some []\<rparr> | Some _ \<Rightarrow> d)"
| "run_stmt e k CreateCustomers d =
     Inr (case t_customers d of None \<Rightarrow> d\<lparr>t_customers := Some []\<rparr> | Some _ \<Rightarrow> d)"
| "run_stmt e k CreateRevenue d =
     Inr (case t_revenue d of None \<Rightarrow> d\<lparr>t_revenue := Some []\<rparr> | Some _ \<Rightarrow> d)"
| "run_stmt e k (InsertUser u) d =
     (case t_users d of
        None \<Rightarrow> Inl UndefinedTable
      | Some rows \<Rightarrow>
          if u_id u \<in> set (map u_id rows) then Inr d
          else if u_email u \<in> set (map u_email rows) then Inl UniqueViolation
          else Inr (d\<lparr>t_users := Some (rows @ [u])\<rparr>))"
| "run_stmt e k (InsertInvoice i) d =
     (case t_invoices d of
        None \<Rightarrow> Inl UndefinedTable
      | Some rows \<Rightarrow>
          if uuid_generate_v4 e k \<in> set (map row_id rows) then Inr d
          else Inr (d\<lparr>t_invoices :=
                      Some (rows @ [\<lparr>row_id = uuid_generate_v4 e k, row_invoice = i\<rparr>])\<rparr>))"
| "run_stmt e k (InsertCustomer c) d =
     (case t_customers d of
        None \<Rightarrow> Inl UndefinedTable
      | Some rows \<Rightarrow>
          if c_id c \<in> set (map c_id rows) then Inr d
          else Inr (d\<lparr>t_customers := Some (rows @ [c])\<rparr>))"
| "run_stmt e k (InsertRevenue r) d =
     (case t_revenue d of
        None \<Rightarrow> Inl UndefinedTable
      | Some rows \<Rightarrow>
          if r_month r \<in> set (map r_month rows) then Inr d
          else Inr (d\<lparr>t_revenue := Some (rows @ [r])\<rparr>))"
| "run_stmt e k Begin d = Inr d"
| "run_stmt e k Commit d = Inr d"
| "run_stmt e k Rollback d = Inr d"

text \<open>
  Transaction control. \<^verbatim>\<open>BEGIN\<close> inside a block and \<^verbatim>\<open>COMMIT\<close>/\<^verbatim>\<open>ROLLBACK\<close>
  outside one only warn. \<^verbatim>\<open>COMMIT\<close> of an aborted block rolls back.
\<close>

fun control :: "stmt \<Rightarrow> database \<Rightarrow> tx \<Rightarrow> error + database \<times> tx" where
  "control Begin d Idle = Inr (d, InTx d)"
| "control Begin d (InTx t) = Inr (d, InTx t)"
| "control Begin d (Aborted t) = Inl TxAborted"
| "control Commit d Idle = Inr (d, Idle)"
| "control Commit d (InTx t) = Inr (d, Idle)"
| "control Commit d (Aborted t) = Inr (t, Idle)"
| "control Rollback d Idle = Inr (d, Idle)"
| "control Rollback d (InTx t) = Inr (t, Idle)"
| "control Rollback d (Aborted t) = Inr (t, Idle)"
| "control s d x = Inr (d, x)"

fun is_control :: "stmt \<Rightarrow> bool" where
  "is_control Begin = True"
| "is_control Commit = True"
| "is_control Rollback = True"
| "is_control s = False"

fun is_aborted :: "tx \<Rightarrow> bool" where
  "is_aborted (Aborted t) = True"
| "is_aborted x = False"

text \<open>
  \<^verbatim>\<open>await client.sql`...`\<close>: the statement is logged and the clock advances; the
  result is \<open>None\<close> when the promise resolves and \<open>Some err\<close> when it rejects. A
  statement that fails changes no table and aborts the open block, if any.
\<close>

definition client_sql :: "env \<Rightarrow> stmt \<Rightarrow> client \<Rightarrow> error option \<times> client" where
  "client_sql e s c =
     (let k = clock c;
          c1 = c\<lparr>clock := Suc k, log := log c @ [s]\<rparr>
      in if stmt_fails e k then (Some StmtFailed, c1\<lparr>txn := abort (txn c)\<rparr>)
         else if is_control s then
           (case control s (cur c) (txn c) of
              Inl err \<Rightarrow> (Some err, c1)
            | Inr (d, x) \<Rightarrow> (None, c1\<lparr>cur := d, txn := x\<rparr>))
         else if is_aborted (txn c) then (Some TxAborted, c1)
         else
           (case run_stmt e k s (cur c) of
              Inl err \<Rightarrow> (Some err, c1\<lparr>txn := abort (txn c)\<rparr>)
            | Inr d \<Rightarrow> (None, c1\<lparr>cur := d\<rparr>)))"

fun first_error :: "error option \<Rightarrow> error option \<Rightarrow> error option" where
  "first_error (Some x) r = Some x"
| "first_error None r = r"

text \<open>
  \<^verbatim>\<open>Promise.all(rows.map((row) => client.sql`INSERT ...`))\<close>: the map sends every
  statement at once, the connection runs them one at a time in that order,
  and the promise rejects with the first failure while the statements behind
  it still run.
\<close>

fun promise_all :: "env \<Rightarrow> stmt list \<Rightarrow> client \<Rightarrow> error option \<times> client" where
  "promise_all e [] c = (None, c)"
| "promise_all e (s # ss) c =
     (case client_sql e s c of
        (r, c1) \<Rightarrow> (case promise_all e ss c1 of (rs, c2) \<Rightarrow> (first_error r rs, c2)))"

section \<open>The seeding functions\<close>

text \<open>
  The mapped callback of \<^verbatim>\<open>seedUsers\<close> awaits \<^verbatim>\<open>bcrypt.hash(user.password, 10)\<close>
  before it sends its INSERT, so the INSERTs are sent as the hashings
  complete; the list is taken in completion order. \<open>pend\<close> is the failure of a
  statement already run whose response may still be on its way, \<open>rej\<close> the
  rejection \<^verbatim>\<open>Promise.all\<close> has settled with. Once it has settled, the caller
  has left its \<^verbatim>\<open>try\<close> block and sent \<^verbatim>\<open>ROLLBACK\<close>: the callbacks that are still
  hashing send their INSERT behind it, and these statements are returned as
  the third component. A rejected hashing settles at once.
\<close>

fun hash_tasks ::
  "env \<Rightarrow> User list \<Rightarrow> client \<Rightarrow> error option \<Rightarrow> error option \<Rightarrow> stmt list
    \<Rightarrow> error option \<times> client \<times> stmt list" where
  "hash_tasks e [] c pend rej late = (first_error rej pend, c, late)"
| "hash_tasks e (u # us) c pend rej late =
     (let k = clock c;
          c0 = c\<lparr>clock := Suc k\<rparr>;
          rej1 = (if rej = None \<and> settled_before e k then pend else rej)
      in case bcrypt_hash e k (u_password u) 10 of
           None \<Rightarrow> hash_tasks e us c0 pend (first_error rej1 (Some HashFailed)) late
         | Some h \<Rightarrow>
             if rej1 \<noteq> None
             then hash_tasks e us c0 pend rej1 (late @ [InsertUser (u\<lparr>u_password := h\<rparr>)])
             else (case client_sql e (InsertUser (u\<lparr>u_password := h\<rparr>)) c0 of
                     (r, c1) \<Rightarrow> hash_tasks e us c1 (first_error pend r) rej1 late))"

definition seedUsers :: "env \<Rightarrow> User list \<Rightarrow> client \<Rightarrow> error option \<times> client \<times> stmt list" where
  "seedUsers e us c =
     (case client_sql e CreateExtension c of
        (Some err, c1) \<Rightarrow> (Some err, c1, [])
      | (None, c1) \<Rightarrow>
          (case client_sql e CreateUsers c1 of
             (Some err, c2) \<Rightarrow> (Some err, c2, [])
           | (None, c2) \<Rightarrow> hash_tasks e us c2 None None []))"

definition seedInvoices :: "env \<Rightarrow> Invoice list \<Rightarrow> client \<Rightarrow> error option \<times> client" where
  "seedInvoices e is c =
     (case client_sql e CreateExtension c of
        (Some err, c1) \<Rightarrow> (Some err, c1)
      | (None, c1) \<Rightarrow>
          (case client_sql e CreateInvoices c1 of
             (Some err, c2) \<Rightarrow> (Some err, c2)
           | (None, c2) \<Rightarrow> promise_all e (map InsertInvoice is) c2))"

definition seedCustomers :: "env \<Rightarrow> Customer list \<Rightarrow> client \<Rightarrow> error option \<times> client" where
  "seedCustomers e cs c =
     (case client_sql e CreateExtension c of
        (Some err, c1) \<Rightarrow> (Some err, c1)
      | (None, c1) \<Rightarrow>
          (case client_sql e CreateCustomers c1 of
             (Some err, c2) \<Rightarrow> (Some err, c2)
           | (None, c2) \<Rightarrow> promise_all e (map InsertCustomer cs) c2))"

definition seedRevenue :: "env \<Rightarrow> Revenue list \<Rightarrow> client \<Rightarrow> error option \<times> client" where
  "seedRevenue e rs c =
     (case client_sql e CreateRevenue c of
        (Some err, c1) \<Rightarrow> (Some err, c1)
      | (None, c1) \<Rightarrow> promise_all e (map InsertRevenue rs) c1)"

section \<open>The GET route handler\<close>

datatype body = Message string | Error error

record response =
  json :: body
  status :: nat

datatype outcome = Returned response | Thrown error

text \<open>
  The \<^verbatim>\<open>try\<close> block: the first rejected \<^verbatim>\<open>await\<close> leaves it. The third component
  is the statements of \<^verbatim>\<open>seedUsers\<close> callbacks that are still to be sent.
\<close>

definition try_block ::
  "env \<Rightarrow> placeholder_data \<Rightarrow> client \<Rightarrow> error option \<times> client \<times> stmt list" where
  "try_block e fx c =
     (case client_sql e Begin c of
        (Some err, c1) \<Rightarrow> (Some err, c1, [])
      | (None, c1) \<Rightarrow>
     (case seedUsers e (users fx) c1 of
        (Some err, c2, late) \<Rightarrow> (Some err, c2, late)
      | (None, c2, late) \<Rightarrow>
     (case seedCustomers e (customers fx) c2 of
        (Some err, c3) \<Rightarrow> (Some err, c3, [])
      | (None, c3) \<Rightarrow>
     (case seedInvoices e (invoices fx) c3 of
        (Some err, c4) \<Rightarrow> (Some err, c4, [])
      | (None, c4) \<Rightarrow>
     (case seedRevenue e (revenue fx) c4 of
        (Some err, c5) \<Rightarrow> (Some err, c5, [])
      | (None, c5) \<Rightarrow>
     (case client_sql e Commit c5 of
        (Some err, c6) \<Rightarrow> (Some err, c6, [])
      | (None, c6) \<Rightarrow> (None, c6, [])))))))"

text \<open>
  The \<^verbatim>\<open>catch\<close> block awaits \<^verbatim>\<open>ROLLBACK\<close> with no handler around it: when that
  statement rejects, the handler throws. The statements still to be sent run
  behind the \<^verbatim>\<open>ROLLBACK\<close>; nothing awaits their results.
\<close>

definition catch_block ::
  "env \<Rightarrow> error \<Rightarrow> stmt list \<Rightarrow> client \<Rightarrow> outcome \<times> client" where
  "catch_block e err late c =
     (case client_sql e Rollback c of
        (Some err', c1) \<Rightarrow> (Thrown err', snd (promise_all e late c1))
      | (None, c1) \<Rightarrow>
          (Returned \<lparr>json = Error err, status = 500\<rparr>, snd (promise_all e late c1)))"

definition GET :: "env \<Rightarrow> placeholder_data \<Rightarrow> client \<Rightarrow> outcome \<times> client" where
  "GET e fx c =
     (case try_block e fx c of
        (None, c1, late) \<Rightarrow>
          (Returned \<lparr>json = Message ''Database seeded successfully'', status = 200\<rparr>, c1)
      | (Some err, c1, late) \<Rightarrow> catch_block e err late c1)"

section \<open>Vocabulary of the properties\<close>

text \<open>
  The statements each seeding function may send, for given fixtures: its
  schema statements and one INSERT per fixture row, a user's with some hash
  of its password in place of the plaintext. \<open>issued\<close> is what one invocation
  of the handler may send.
\<close>

definition users_stmts :: "env \<Rightarrow> User list \<Rightarrow> stmt set" where
  "users_stmts e us =
     {CreateExtension, CreateUsers}
     \<union> {InsertUser (u\<lparr>u_password := h\<rparr>) | u h k.
          u \<in> set us \<and> bcrypt_hash e k (u_password u) 10 = Some h}"

definition customers_stmts :: "Customer list \<Rightarrow> stmt set" where
  "customers_stmts cs = {CreateExtension, CreateCustomers} \<union> InsertCustomer ` set cs"

definition invoices_stmts :: "Invoice list \<Rightarrow> stmt set" where
  "invoices_stmts is = {CreateExtension, CreateInvoices} \<union> InsertInvoice ` set is"

definition revenue_stmts :: "Revenue list \<Rightarrow> stmt set" where
  "revenue_stmts rs = {CreateRevenue} \<union> InsertRevenue ` set rs"

definition issued :: "env \<Rightarrow> placeholder_data \<Rightarrow> stmt set" where
  "issued e fx =
     {Begin, Commit, Rollback} \<union> users_stmts e (users fx) \<union> customers_stmts (customers fx)
     \<union> invoices_stmts (invoices fx) \<union> revenue_stmts (revenue fx)"

text \<open>
  The seeding step a statement belongs to: 1 users, 2 customers, 3 invoices,
  4 revenue. \<^verbatim>\<open>CREATE EXTENSION\<close> is sent by three of the steps and the
  transaction control by the handler itself, so they belong to none.
\<close>

fun step_of :: "stmt \<Rightarrow> nat option" where
  "step_of CreateUsers = Some 1"
| "step_of (InsertUser u) = Some 1"
| "step_of CreateCustomers = Some 2"
| "step_of (InsertCustomer c) = Some 2"
| "step_of CreateInvoices = Some 3"
| "step_of (InsertInvoice i) = Some 3"
| "step_of CreateRevenue = Some 4"
| "step_of (InsertRevenue r) = Some 4"
| "step_of s = None"

definition steps :: "stmt list \<Rightarrow> nat list" where
  "steps ss = List.map_filter step_of ss"

text \<open>The response of a run that went through.\<close>

definition success :: outcome where
  "success = Returned \<lparr>json = Message ''Database seeded successfully'', status = 200\<rparr>"

text \<open>The rows of a table, none when the table does not exist.\<close>

fun rows :: "'a list option \<Rightarrow> 'a list" where
  "rows None = []"
| "rows (Some rs) = rs"

text \<open>
  The statements sent since the log was \<open>l0\<close> all belong to step \<open>k\<close> or to
  none.
\<close>

definition sent_in_step :: "stmt list \<Rightarrow> nat \<Rightarrow> client \<Rightarrow> bool" where
  "sent_in_step l0 k c = (\<exists>ss. log c = l0 @ ss \<and> set (steps ss) \<subseteq> {k})"

text \<open>
  A property of the tables holds of the connection when it holds of what the
  session sees and of what a \<^verbatim>\<open>ROLLBACK\<close> would restore.
\<close>

definition holds :: "(database \<Rightarrow> bool) \<Rightarrow> client \<Rightarrow> bool" where
  "holds Q c = (Q (cur c) \<and> (case txn c of Idle \<Rightarrow> True | InTx t \<Rightarrow> Q t | Aborted t \<Rightarrow> Q t))"

text \<open>The three keyed tables exist and hold exactly the given rows.\<close>

definition keyed_tables :: "User list \<Rightarrow> Customer list \<Rightarrow> Revenue list \<Rightarrow> database \<Rightarrow> bool" where
  "keyed_tables U C R d = (t_users d = Some U \<and> t_customers d = Some C \<and> t_revenue d = Some R)"

text \<open>
  Every \<^verbatim>\<open>id\<close> in \<^verbatim>\<open>invoices\<close> was generated by the server at an earlier time,
  and no two rows share one.
\<close>

definition generated_ids :: "env \<Rightarrow> client \<Rightarrow> bool" where
  "generated_ids e c =
     (row_id ` set (rows (t_invoices (cur c))) \<subseteq> uuid_generate_v4 e ` {..<clock c} \<and>
      distinct (map row_id (rows (t_invoices (cur c)))))"

text \<open>
  A row is a fixture user with some \<^verbatim>\<open>bcrypt.hash(password, 10)\<close> in place of the
  plaintext; and every row of \<^verbatim>\<open>users\<close> is either one of the given old rows or
  such a row.
\<close>

definition hashed_from :: "env \<Rightarrow> User list \<Rightarrow> User \<Rightarrow> bool" where
  "hashed_from e us r =
     (\<exists>u \<in> set us. \<exists>k h. bcrypt_hash e k (u_password u) 10 = Some h \<and> r = u\<lparr>u_password := h\<rparr>)"

definition users_old_or_hashed :: "env \<Rightarrow> User list \<Rightarrow> User list \<Rightarrow> database \<Rightarrow> bool" where
  "users_old_or_hashed e us old d =
     (\<forall>r \<in> set (rows (t_users d)). r \<in> set old \<or> hashed_from e us r)"

text \<open>
  What the database holds for everyone else: the tables as they were at
  \<^verbatim>\<open>BEGIN\<close> while a block is open. And: a block is open, or aborted, that was
  begun on the tables \<open>d\<close>.
\<close>

definition committed :: "client \<Rightarrow> database" where
  "committed c = (case txn c of Idle \<Rightarrow> cur c | InTx t \<Rightarrow> t | Aborted t \<Rightarrow> t)"

definition in_block :: "database \<Rightarrow> client \<Rightarrow> bool" where
  "in_block d c = (txn c = InTx d \<or> txn c = Aborted d)"

section \<open>Concrete runs\<close>

text \<open>
  An environment in which nothing fails, identifiers are generated fresh and
  every response arrives before the next hashing completes; the same with
  every statement failing from time \<open>n\<close> on; and the fixtures of the
  end-to-end scenario, run on a new connection to an empty database.
\<close>

definition env_ok :: env where
  "env_ok =
     \<lparr>stmt_fails = (\<lambda>k. False),
      uuid_generate_v4 = (\<lambda>k. replicate k (CHR ''0'')),
      bcrypt_hash = (\<lambda>k p rounds. Some (''$2b$'' @ p)),
      settled_before = (\<lambda>k. True)\<rparr>"

definition env_failing_from :: "nat \<Rightarrow> env" where
  "env_failing_from n = env_ok\<lparr>stmt_fails := (\<lambda>k. n \<le> k)\<rparr>"

definition env_failing_at :: "nat \<Rightarrow> env" where
  "env_failing_at n = env_ok\<lparr>stmt_fails := (\<lambda>k. k = n)\<rparr>"

definition fixtures1 :: placeholder_data where
  "fixtures1 =
     \<lparr>users = [\<lparr>u_id = ''u1'', u_name = ''Amy'', u_email = ''amy@x.com'',
                 u_password = ''secret''\<rparr>],
      customers = [\<lparr>c_id = ''c1'', c_name = ''Acme'', c_email = ''a@acme.com'',
                     c_image_url = ''/img.png''\<rparr>],
      invoices = [\<lparr>i_customer_id = ''c1'', i_amount = 500, i_status = ''paid'',
                    i_date = ''2024-01-01''\<rparr>],
      revenue = [\<lparr>r_month = ''Jan1'', r_revenue = 1000\<rparr>]\<rparr>"

definition client0 :: client where
  "client0 = \<lparr>cur = empty_database, txn = Idle, clock = 0, log = []\<rparr>"

text \<open>
  The connection after that scenario has run once, and a second set of
  fixtures whose first user has a new \<^verbatim>\<open>id\<close> but the email of the user already
  stored, and whose second user is new altogether.
\<close>

definition seeded1 :: client where
  "seeded1 = snd (GET env_ok fixtures1 client0)"

definition fixtures2 :: placeholder_data where
  "fixtures2 = fixtures1\<lparr>users :=
     [\<lparr>u_id = ''u2'', u_name = ''Amy B'', u_email = ''amy@x.com'',
       u_password = ''hunter2''\<rparr>,
      \<lparr>u_id = ''u3'', u_name = ''Bob'', u_email = ''bob@x.com'',
       u_password = ''letmein''\<rparr>]\<rparr>"

text \<open>
  An environment in which the hashing of one password rejects and no response
  ever arrives before a hashing completes.
\<close>

definition env_hash_fails :: env where
  "env_hash_fails =
     env_ok\<lparr>bcrypt_hash := (\<lambda>k p rounds. if p = ''hunter2'' then None else Some (''$2b$'' @ p)),
            settled_before := (\<lambda>k. False)\<rparr>"

lemmas run_defs =
  GET_def try_block_def catch_block_def seedUsers_def seedCustomers_def
  seedInvoices_def seedRevenue_def client_sql_def env_ok_def
  env_failing_from_def env_failing_at_def fixtures1_def client0_def
  empty_database_def

section \<open>Conflict on the user id\<close>

text \<open>
  C7. A user INSERT whose \<^verbatim>\<open>id\<close> is already in the \<^verbatim>\<open>users\<close> table is skipped:
  when the statement reaches a session that is not in an aborted block, the
  promise resolves and nothing but the clock and the log of the connection
  changes, so every existing row keeps its name, email and password.
\<close>

theorem insert_user_conflict_skip:
  assumes "t_users (cur c) = Some rs" and "u_id u \<in> u_id ` set rs"
    and "\<not> stmt_fails e (clock c)" and "\<not> is_aborted (txn c)"
  shows "client_sql e (InsertUser u) c =
           (None, c\<lparr>clock := Suc (clock c), log := log c @ [InsertUser u]\<rparr>)"
  using assms by (simp add: client_sql_def)

theorem insert_user_conflict_skip_witness:
  "client_sql env_ok
     (InsertUser \<lparr>u_id = ''u1'', u_name = ''Bob'', u_email = ''bob@x.com'',
                  u_password = ''$2b$other''\<rparr>)
     (client0\<lparr>cur := empty_database\<lparr>t_users :=
        Some [\<lparr>u_id = ''u1'', u_name = ''Amy'', u_email = ''amy@x.com'',
               u_password = ''$2b$secret''\<rparr>]\<rparr>\<rparr>)
   = (None,
      client0\<lparr>cur := empty_database\<lparr>t_users :=
          Some [\<lparr>u_id = ''u1'', u_name = ''Amy'', u_email = ''amy@x.com'',
                 u_password = ''$2b$secret''\<rparr>]\<rparr>,
        clock := 1,
        log := [InsertUser \<lparr>u_id = ''u1'', u_name = ''Bob'', u_email = ''bob@x.com'',
                            u_password = ''$2b$other''\<rparr>]\<rparr>)"
  using insert_user_conflict_skip
    [of "client0\<lparr>cur := empty_database\<lparr>t_users :=
           Some [\<lparr>u_id = ''u1'', u_name = ''Amy'', u_email = ''amy@x.com'',
                  u_password = ''$2b$secret''\<rparr>]\<rparr>\<rparr>"
        "[\<lparr>u_id = ''u1'', u_name = ''Amy'', u_email = ''amy@x.com'',
           u_password = ''$2b$secret''\<rparr>]"
        "\<lparr>u_id = ''u1'', u_name = ''Bob'', u_email = ''bob@x.com'',
          u_password = ''$2b$other''\<rparr>"
        env_ok]
  by (simp add: client0_def env_ok_def)

section \<open>Invariants of a run\<close>

text \<open>
  A property of the connection that every statement of \<open>issued\<close> preserves,
  and that does not depend on the clock alone, holds after the handler
  whenever it held before, whatever the outcome.
\<close>

lemma client_sql_clock: "clock (snd (client_sql e s c)) = Suc (clock c)"
  by (simp add: client_sql_def Let_def split: sum.split prod.split)

lemma client_sql_log: "log (snd (client_sql e s c)) = log c @ [s]"
  by (simp add: client_sql_def Let_def split: sum.split prod.split)

lemma promise_all_inv:
  assumes step: "\<And>s c. s \<in> S \<Longrightarrow> P c \<Longrightarrow> P (snd (client_sql e s c))"
  shows "set ss \<subseteq> S \<Longrightarrow> P c \<Longrightarrow> P (snd (promise_all e ss c))"
proof (induction ss arbitrary: c)
  case Nil
  then show ?case by simp
next
  case (Cons s ss)
  from Cons.prems have "P (snd (client_sql e s c))" by (simp add: step)
  with Cons.IH [of "snd (client_sql e s c)"] Cons.prems(1)
  show ?case by (auto split: prod.split)
qed

lemma hash_tasks_inv:
  assumes step: "\<And>s c. s \<in> S \<Longrightarrow> P c \<Longrightarrow> P (snd (client_sql e s c))"
    and tick: "\<And>c. P c \<Longrightarrow> P (c\<lparr>clock := Suc (clock c)\<rparr>)"
    and S: "users_stmts e us0 \<subseteq> S"
  shows "set us \<subseteq> set us0 \<Longrightarrow> P c \<Longrightarrow> set late \<subseteq> S \<Longrightarrow>
         hash_tasks e us c pend rej late = (r, c', late') \<Longrightarrow>
         P c' \<and> set late' \<subseteq> S"
proof (induction us arbitrary: c pend rej late)
  case Nil
  then show ?case by simp
next
  case (Cons u us)
  let ?k = "clock c"
  let ?c0 = "c\<lparr>clock := Suc ?k\<rparr>"
  have P0: "P ?c0" using Cons.prems(2) by (rule tick)
  have us: "set us \<subseteq> set us0" and u: "u \<in> set us0"
    using Cons.prems(1) by auto
  show ?case
  proof (cases "bcrypt_hash e ?k (u_password u) 10")
    case None
    with Cons.prems(4) Cons.IH [OF us P0 Cons.prems(3)] show ?thesis
      by (simp add: Let_def)
  next
    case (Some h)
    let ?s = "InsertUser (u\<lparr>u_password := h\<rparr>)"
    have "?s \<in> users_stmts e us0" using u Some by (auto simp: users_stmts_def)
    with S have s: "?s \<in> S" by blast
    show ?thesis
    proof (cases "(if rej = None \<and> settled_before e ?k then pend else rej) = None")
      case True
      obtain r1 c1 where c1: "client_sql e ?s ?c0 = (r1, c1)" by (cases "client_sql e ?s ?c0")
      have "P c1" using step [OF s P0] c1 by simp
      from Cons.IH [OF us this Cons.prems(3)] Cons.prems(4) Some True c1
      show ?thesis by (simp add: Let_def)
    next
      case False
      have l: "set (late @ [?s]) \<subseteq> S" using s Cons.prems(3) by simp
      from Cons.IH [OF us P0 l] Cons.prems(4) Some False
      show ?thesis by (simp add: Let_def)
    qed
  qed
qed

lemma seedUsers_inv:
  assumes step: "\<And>s c. s \<in> S \<Longrightarrow> P c \<Longrightarrow> P (snd (client_sql e s c))"
    and tick: "\<And>c. P c \<Longrightarrow> P (c\<lparr>clock := Suc (clock c)\<rparr>)"
    and S: "users_stmts e us \<subseteq> S"
    and "P c" and "seedUsers e us c = (r, c', late)"
  shows "P c' \<and> set late \<subseteq> S"
proof -
  obtain r1 c1 where c1: "client_sql e CreateExtension c = (r1, c1)"
    by (cases "client_sql e CreateExtension c")
  obtain r2 c2 where c2: "client_sql e CreateUsers c1 = (r2, c2)"
    by (cases "client_sql e CreateUsers c1")
  have in_S: "CreateExtension \<in> S" "CreateUsers \<in> S" using S by (auto simp: users_stmts_def)
  have P1: "P c1" using step [OF in_S(1) assms(4)] c1 by simp
  have P2: "P c2" using step [OF in_S(2) P1] c2 by simp
  show ?thesis
  proof (cases r1)
    case (Some a)
    then show ?thesis using assms(5) c1 P1 by (simp add: seedUsers_def)
  next
    case None
    note r1 = this
    show ?thesis
    proof (cases r2)
      case (Some a)
      then show ?thesis using assms(5) c1 c2 r1 P2 by (simp add: seedUsers_def)
    next
      case None
      then have "hash_tasks e us c2 None None [] = (r, c', late)"
        using assms(5) c1 c2 r1 by (simp add: seedUsers_def)
      from hash_tasks_inv [of S P e us, OF step tick S _ P2 _ this] show ?thesis by simp
    qed
  qed
qed

lemma seedCustomers_inv:
  assumes step: "\<And>s c. s \<in> S \<Longrightarrow> P c \<Longrightarrow> P (snd (client_sql e s c))"
    and S: "customers_stmts cs \<subseteq> S" and "P c"
  shows "P (snd (seedCustomers e cs c))"
proof -
  have in_S: "CreateExtension \<in> S" "CreateCustomers \<in> S" "set (map InsertCustomer cs) \<subseteq> S"
    using S by (auto simp: customers_stmts_def)
  have P1: "P (snd (client_sql e CreateExtension c))"
    using step [OF in_S(1) assms(3)] .
  have P2: "P (snd (client_sql e CreateCustomers (snd (client_sql e CreateExtension c))))"
    using step [OF in_S(2) P1] .
  have "P (snd (promise_all e (map InsertCustomer cs)
           (snd (client_sql e CreateCustomers (snd (client_sql e CreateExtension c))))))"
    by (rule promise_all_inv [of S P, OF step in_S(3) P2])
  with P1 P2 show ?thesis
    by (auto simp: seedCustomers_def split: prod.split option.split)
qed

lemma seedInvoices_inv:
  assumes step: "\<And>s c. s \<in> S \<Longrightarrow> P c \<Longrightarrow> P (snd (client_sql e s c))"
    and S: "invoices_stmts is \<subseteq> S" and "P c"
  shows "P (snd (seedInvoices e is c))"
proof -
  have in_S: "CreateExtension \<in> S" "CreateInvoices \<in> S" "set (map InsertInvoice is) \<subseteq> S"
    using S by (auto simp: invoices_stmts_def)
  have P1: "P (snd (client_sql e CreateExtension c))"
    using step [OF in_S(1) assms(3)] .
  have P2: "P (snd (client_sql e CreateInvoices (snd (client_sql e CreateExtension c))))"
    using step [OF in_S(2) P1] .
  have "P (snd (promise_all e (map InsertInvoice is)
           (snd (client_sql e CreateInvoices (snd (client_sql e CreateExtension c))))))"
    by (rule promise_all_inv [of S P, OF step in_S(3) P2])
  with P1 P2 show ?thesis
    by (auto simp: seedInvoices_def split: prod.split option.split)
qed

lemma seedRevenue_inv:
  assumes step: "\<And>s c. s \<in> S \<Longrightarrow> P c \<Longrightarrow> P (snd (client_sql e s c))"
    and S: "revenue_stmts rs \<subseteq> S" and "P c"
  shows "P (snd (seedRevenue e rs c))"
proof -
  have in_S: "CreateRevenue \<in> S" "set (map InsertRevenue rs) \<subseteq> S"
    using S by (auto simp: revenue_stmts_def)
  have P1: "P (snd (client_sql e CreateRevenue c))"
    using step [OF in_S(1) assms(3)] .
  have "P (snd (promise_all e (map InsertRevenue rs) (snd (client_sql e CreateRevenue c))))"
    by (rule promise_all_inv [of S P, OF step in_S(2) P1])
  with P1 show ?thesis
    by (auto simp: seedRevenue_def split: prod.split option.split)
qed

lemma try_block_inv:
  assumes step: "\<And>s c. s \<in> issued e fx \<Longrightarrow> P c \<Longrightarrow> P (snd (client_sql e s c))"
    and tick: "\<And>c. P c \<Longrightarrow> P (c\<lparr>clock := Suc (clock c)\<rparr>)"
    and "P c" and "try_block e fx c = (r, c', late)"
  shows "P c' \<and> set late \<subseteq> issued e fx"
proof -
  obtain r1 c1 where c1: "client_sql e Begin c = (r1, c1)" by (cases "client_sql e Begin c")
  obtain r2 c2 l2 where c2: "seedUsers e (users fx) c1 = (r2, c2, l2)"
    by (cases "seedUsers e (users fx) c1")
  obtain r3 c3 where c3: "seedCustomers e (customers fx) c2 = (r3, c3)"
    by (cases "seedCustomers e (customers fx) c2")
  obtain r4 c4 where c4: "seedInvoices e (invoices fx) c3 = (r4, c4)"
    by (cases "seedInvoices e (invoices fx) c3")
  obtain r5 c5 where c5: "seedRevenue e (revenue fx) c4 = (r5, c5)"
    by (cases "seedRevenue e (revenue fx) c4")
  obtain r6 c6 where c6: "client_sql e Commit c5 = (r6, c6)" by (cases "client_sql e Commit c5")
  have P1: "P c1" using step [of Begin c] assms(3) c1 by (simp add: issued_def)
  have P2: "P c2 \<and> set l2 \<subseteq> issued e fx"
    by (rule seedUsers_inv [of "issued e fx" P, OF step tick _ P1 c2]) (auto simp: issued_def)
  have P3: "P c3"
    using seedCustomers_inv [of "issued e fx" P e "customers fx" c2, OF step] P2 c3
    by (auto simp: issued_def)
  have P4: "P c4"
    using seedInvoices_inv [of "issued e fx" P e "invoices fx" c3, OF step] P3 c4
    by (auto simp: issued_def)
  have P5: "P c5"
    using seedRevenue_inv [of "issued e fx" P e "revenue fx" c4, OF step] P4 c5
    by (auto simp: issued_def)
  have P6: "P c6" using step [of Commit c5] P5 c6 by (simp add: issued_def)
  show ?thesis
    using assms(4) c1 c2 c3 c4 c5 c6 P1 P2 P3 P4 P5 P6
    by (auto simp: try_block_def split: option.splits)
qed

lemma GET_inv:
  assumes step: "\<And>s c. s \<in> issued e fx \<Longrightarrow> P c \<Longrightarrow> P (snd (client_sql e s c))"
    and tick: "\<And>c. P c \<Longrightarrow> P (c\<lparr>clock := Suc (clock c)\<rparr>)"
    and "P c"
  shows "P (snd (GET e fx c))"
proof -
  obtain r c1 late where t: "try_block e fx c = (r, c1, late)" by (cases "try_block e fx c")
  have P1: "P c1" and l: "set late \<subseteq> issued e fx"
    using try_block_inv [of e fx P, OF step tick assms(3) t] by simp_all
  have P2: "P (snd (client_sql e Rollback c1))"
    using step [of Rollback c1] P1 by (simp add: issued_def)
  have "P (snd (promise_all e late (snd (client_sql e Rollback c1))))"
    by (rule promise_all_inv [of "issued e fx" P, OF step l P2])
  with t P1 show ?thesis
    by (auto simp: GET_def catch_block_def split: option.split prod.split)
qed

section \<open>The response\<close>

text \<open>
  C10. When the \<^verbatim>\<open>try\<close> block fails and the \<^verbatim>\<open>ROLLBACK\<close> awaited in the \<^verbatim>\<open>catch\<close>
  block rejects as well, the handler throws that second error; it does not
  return the JSON error response.
\<close>

theorem GET_throws_when_rollback_fails:
  assumes "try_block e fx c = (Some err, c1, late)"
    and "client_sql e Rollback c1 = (Some err', c2)"
  shows "fst (GET e fx c) = Thrown err'"
  using assms by (simp add: GET_def catch_block_def)

theorem GET_throws_when_rollback_fails_witness:
  "try_block (env_failing_from 1) fixtures1 client0 =
     (Some StmtFailed,
      client0\<lparr>clock := 2, log := [Begin, CreateExtension], txn := Aborted empty_database\<rparr>, []) \<and>
   fst (client_sql (env_failing_from 1) Rollback
      (client0\<lparr>clock := 2, log := [Begin, CreateExtension], txn := Aborted empty_database\<rparr>))
     = Some StmtFailed \<and>
   fst (GET (env_failing_from 1) fixtures1 client0) = Thrown StmtFailed"
proof -
  have t: "try_block (env_failing_from 1) fixtures1 client0 =
     (Some StmtFailed,
      client0\<lparr>clock := 2, log := [Begin, CreateExtension], txn := Aborted empty_database\<rparr>, [])"
    by (simp add: run_defs)
  have r: "client_sql (env_failing_from 1) Rollback
       (client0\<lparr>clock := 2, log := [Begin, CreateExtension], txn := Aborted empty_database\<rparr>)
     = (Some StmtFailed,
        client0\<lparr>clock := 3, log := [Begin, CreateExtension, Rollback],
          txn := Aborted empty_database\<rparr>)"
    by (simp add: run_defs)
  show ?thesis using GET_throws_when_rollback_fails [OF t r] t r by simp
qed





section \<open>Conflict on the user email\<close>

text \<open>
  C9. The conflict clause of the user INSERT covers the \<^verbatim>\<open>id\<close> only. When the
  fixtures hold one user whose \<^verbatim>\<open>id\<close> is new and whose email is already in the
  \<^verbatim>\<open>users\<close> table, and nothing else goes wrong, the INSERT violates the
  uniqueness of \<^verbatim>\<open>email\<close>: the run is rolled back and answered with status 500,
  and the connection is left as it was but for its clock and log.
\<close>

theorem email_conflict_fails_run:
  assumes "txn c = Idle" and "t_users (cur c) = Some rs"
    and "u_id u \<notin> u_id ` set rs" and "u_email u \<in> u_email ` set rs"
    and "\<forall>k. \<not> stmt_fails e k"
    and "bcrypt_hash e (clock c + 3) (u_password u) 10 = Some h"
    and "users fx = [u]"
  shows "GET e fx c =
           (Returned \<lparr>json = Error UniqueViolation, status = 500\<rparr>,
            c\<lparr>clock := clock c + 6,
              log := log c @ [Begin, CreateExtension, CreateUsers,
                              InsertUser (u\<lparr>u_password := h\<rparr>), Rollback]\<rparr>)"
proof -
  have h: "bcrypt_hash e (Suc (Suc (Suc (clock c)))) (u_password u) 10 = Some h"
    using assms(6) by (simp add: numeral_3_eq_3)
  have k: "clock c + 6 = Suc (Suc (Suc (Suc (Suc (Suc (clock c))))))"
    by simp
  show ?thesis
    unfolding k using assms(1-5,7) h
    by (simp add: GET_def try_block_def catch_block_def seedUsers_def client_sql_def Let_def)
qed

theorem email_conflict_fails_run_witness:
  "GET env_ok
     (fixtures1\<lparr>users := [\<lparr>u_id = ''u2'', u_name = ''Amy B'', u_email = ''amy@x.com'',
                             u_password = ''hunter2''\<rparr>]\<rparr>)
     (client0\<lparr>cur := empty_database\<lparr>t_users :=
        Some [\<lparr>u_id = ''u1'', u_name = ''Amy'', u_email = ''amy@x.com'',
               u_password = ''$2b$secret''\<rparr>]\<rparr>\<rparr>)
   = (Returned \<lparr>json = Error UniqueViolation, status = 500\<rparr>,
      client0\<lparr>cur := empty_database\<lparr>t_users :=
          Some [\<lparr>u_id = ''u1'', u_name = ''Amy'', u_email = ''amy@x.com'',
                 u_password = ''$2b$secret''\<rparr>]\<rparr>,
        clock := 6,
        log := [Begin, CreateExtension, CreateUsers,
                InsertUser \<lparr>u_id = ''u2'', u_name = ''Amy B'', u_email = ''amy@x.com'',
                             u_password = ''$2b$hunter2''\<rparr>,
                Rollback]\<rparr>)"
  using email_conflict_fails_run
    [of "client0\<lparr>cur := empty_database\<lparr>t_users :=
           Some [\<lparr>u_id = ''u1'', u_name = ''Amy'', u_email = ''amy@x.com'',
                  u_password = ''$2b$secret''\<rparr>]\<rparr>\<rparr>"
        "[\<lparr>u_id = ''u1'', u_name = ''Amy'', u_email = ''amy@x.com'',
           u_password = ''$2b$secret''\<rparr>]"
        "\<lparr>u_id = ''u2'', u_name = ''Amy B'', u_email = ''amy@x.com'',
          u_password = ''hunter2''\<rparr>"
        env_ok "''$2b$hunter2''"
        "fixtures1\<lparr>users := [\<lparr>u_id = ''u2'', u_name = ''Amy B'', u_email = ''amy@x.com'',
                                 u_password = ''hunter2''\<rparr>]\<rparr>"]
  by (simp add: client0_def env_ok_def fixtures1_def)

section \<open>Successful statements and steps\<close>

text \<open>
  What is known when a promise resolved: the statement was not refused, and
  every statement before it in the same step resolved as well.
\<close>

lemma client_sql_ok:
  assumes "client_sql e s c = (None, c')" and "\<not> is_control s"
  shows "\<not> is_aborted (txn c) \<and> \<not> stmt_fails e (clock c) \<and>
         (\<exists>d. run_stmt e (clock c) s (cur c) = Inr d \<and>
              c' = c\<lparr>clock := Suc (clock c), log := log c @ [s], cur := d\<rparr>)"
  using assms by (auto simp: client_sql_def Let_def split: if_splits sum.splits)

lemma promise_all_ok_Cons:
  assumes "promise_all e (s # ss) c = (None, c')"
  shows "\<exists>c1. client_sql e s c = (None, c1) \<and> promise_all e ss c1 = (None, c')"
proof -
  obtain r c1 where c1: "client_sql e s c = (r, c1)" by (cases "client_sql e s c")
  obtain rs c2 where c2: "promise_all e ss c1 = (rs, c2)" by (cases "promise_all e ss c1")
  from assms c1 c2 have "first_error r rs = None" "c2 = c'" by simp_all
  then have "r = None" "rs = None" by (cases r; simp)+
  with c1 c2 \<open>c2 = c'\<close> show ?thesis by simp
qed

lemma hash_tasks_None:
  "hash_tasks e us c pend rej late = (None, c', late') \<Longrightarrow>
   pend = None \<and> rej = None \<and> late' = late"
proof (induction us arbitrary: c pend rej late)
  case Nil
  then show ?case by (cases rej; simp)
next
  case (Cons u us)
  let ?k = "clock c"
  let ?c0 = "c\<lparr>clock := Suc ?k\<rparr>"
  let ?rej1 = "if rej = None \<and> settled_before e ?k then pend else rej"
  show ?case
  proof (cases "bcrypt_hash e ?k (u_password u) 10")
    case None
    with Cons.prems have "hash_tasks e us ?c0 pend (first_error ?rej1 (Some HashFailed)) late
        = (None, c', late')"
      by (simp add: Let_def)
    from Cons.IH [OF this] have "first_error ?rej1 (Some HashFailed) = None" by simp
    then show ?thesis by (cases ?rej1; simp)
  next
    case (Some h)
    let ?s = "InsertUser (u\<lparr>u_password := h\<rparr>)"
    show ?thesis
    proof (cases "?rej1 = None")
      case True
      obtain r c1 where c1: "client_sql e ?s ?c0 = (r, c1)" by (cases "client_sql e ?s ?c0")
      with Cons.prems Some True
      have "hash_tasks e us c1 (first_error pend r) ?rej1 late = (None, c', late')"
        by (simp add: Let_def)
      from Cons.IH [OF this] have *: "first_error pend r = None" "?rej1 = None" "late' = late"
        by simp_all
      from *(1) have "pend = None" by (cases pend; simp)
      moreover from *(2) \<open>pend = None\<close> have "rej = None" by (simp split: if_splits)
      ultimately show ?thesis using *(3) by simp
    next
      case False
      with Cons.prems Some
      have "hash_tasks e us ?c0 pend ?rej1 (late @ [?s]) = (None, c', late')"
        by (simp add: Let_def)
      from Cons.IH [OF this] False show ?thesis by simp
    qed
  qed
qed

lemma hash_tasks_ok_Cons:
  assumes "hash_tasks e (u # us) c None None late = (None, c', late')"
  shows "\<exists>h c1. bcrypt_hash e (clock c) (u_password u) 10 = Some h \<and>
           client_sql e (InsertUser (u\<lparr>u_password := h\<rparr>)) (c\<lparr>clock := Suc (clock c)\<rparr>) = (None, c1) \<and>
           hash_tasks e us c1 None None late = (None, c', late')"
proof (cases "bcrypt_hash e (clock c) (u_password u) 10")
  case None
  with assms have "hash_tasks e us (c\<lparr>clock := Suc (clock c)\<rparr>) None (Some HashFailed) late
      = (None, c', late')"
    by (simp add: Let_def)
  from hash_tasks_None [OF this] show ?thesis by simp
next
  case (Some h)
  let ?s = "InsertUser (u\<lparr>u_password := h\<rparr>)"
  obtain r c1 where c1: "client_sql e ?s (c\<lparr>clock := Suc (clock c)\<rparr>) = (r, c1)"
    by (cases "client_sql e ?s (c\<lparr>clock := Suc (clock c)\<rparr>)")
  with assms Some have t: "hash_tasks e us c1 (first_error None r) None late = (None, c', late')"
    by (simp add: Let_def)
  from hash_tasks_None [OF t] have "r = None" by simp
  with t c1 Some show ?thesis by simp
qed

lemma insert_users_ok:
  "hash_tasks e us c None None late = (None, c', late') \<Longrightarrow> t_users (cur c) = Some rs \<Longrightarrow>
   \<not> is_aborted (txn c) \<Longrightarrow>
   \<exists>rs' ss. t_users (cur c') = Some rs' \<and>
     u_id ` set rs' = u_id ` set rs \<union> u_id ` set us \<and>
     (distinct (map u_id rs) \<longrightarrow> distinct (map u_id rs')) \<and>
     txn c' = txn c \<and> \<not> is_aborted (txn c') \<and>
     log c' = log c @ ss \<and> steps ss = replicate (length us) 1"
proof (induction us arbitrary: c rs)
  case Nil
  then show ?case by (simp add: steps_def)
next
  case (Cons u us)
  from hash_tasks_ok_Cons [OF Cons.prems(1)] obtain h c1 where
    h: "bcrypt_hash e (clock c) (u_password u) 10 = Some h" and
    c1: "client_sql e (InsertUser (u\<lparr>u_password := h\<rparr>)) (c\<lparr>clock := Suc (clock c)\<rparr>) = (None, c1)" and
    t: "hash_tasks e us c1 None None late = (None, c', late')"
    by blast
  let ?s = "InsertUser (u\<lparr>u_password := h\<rparr>)"
  from client_sql_ok [OF c1] obtain d where
    na: "\<not> is_aborted (txn c)" and
    d: "run_stmt e (Suc (clock c)) ?s (cur c) = Inr d" and
    c1_eq: "c1 = c\<lparr>clock := Suc (Suc (clock c)), log := log c @ [?s], cur := d\<rparr>"
    by auto
  have "\<exists>rs1. t_users d = Some rs1 \<and> u_id ` set rs1 = insert (u_id u) (u_id ` set rs) \<and>
          (distinct (map u_id rs) \<longrightarrow> distinct (map u_id rs1))"
    using d Cons.prems(2) by (auto split: if_splits)
  then obtain rs1 where rs1: "t_users d = Some rs1" "u_id ` set rs1 = insert (u_id u) (u_id ` set rs)"
    "distinct (map u_id rs) \<longrightarrow> distinct (map u_id rs1)" by blast
  have "t_users (cur c1) = Some rs1" "\<not> is_aborted (txn c1)"
    using c1_eq rs1(1) Cons.prems(3) by simp_all
  from Cons.IH [OF t this] obtain rs' ss where
    IH: "t_users (cur c') = Some rs'" "u_id ` set rs' = u_id ` set rs1 \<union> u_id ` set us"
      "distinct (map u_id rs1) \<longrightarrow> distinct (map u_id rs')" "txn c' = txn c1"
      "\<not> is_aborted (txn c')" "log c' = log c1 @ ss" "steps ss = replicate (length us) 1"
    by blast
  have "log c' = log c @ (?s # ss)" using IH(6) c1_eq by simp
  moreover have "steps (?s # ss) = replicate (length (u # us)) 1"
    using IH(7) by (simp add: steps_def)
  moreover have "u_id ` set rs' = u_id ` set rs \<union> u_id ` set (u # us)"
    using IH(2) rs1(2) by auto
  moreover have "txn c' = txn c" using IH(4) c1_eq by simp
  ultimately show ?case using IH(1,3,5) rs1(3) by blast
qed

lemma insert_customers_ok:
  "promise_all e (map InsertCustomer cs) c = (None, c') \<Longrightarrow> t_customers (cur c) = Some rs \<Longrightarrow>
   \<not> is_aborted (txn c) \<Longrightarrow>
   \<exists>rs'. t_customers (cur c') = Some rs' \<and>
     c_id ` set rs' = c_id ` set rs \<union> c_id ` set cs \<and>
     (distinct (map c_id rs) \<longrightarrow> distinct (map c_id rs')) \<and>
     txn c' = txn c"
proof (induction cs arbitrary: c rs)
  case Nil
  then show ?case by simp
next
  case (Cons x cs)
  from promise_all_ok_Cons [of e "InsertCustomer x" "map InsertCustomer cs" c c'] Cons.prems(1)
  obtain c1 where c1: "client_sql e (InsertCustomer x) c = (None, c1)"
    and t: "promise_all e (map InsertCustomer cs) c1 = (None, c')" by auto
  from client_sql_ok [OF c1] obtain d where
    d: "run_stmt e (clock c) (InsertCustomer x) (cur c) = Inr d" and
    c1_eq: "c1 = c\<lparr>clock := Suc (clock c), log := log c @ [InsertCustomer x], cur := d\<rparr>"
    by auto
  have "\<exists>rs1. t_customers d = Some rs1 \<and> c_id ` set rs1 = insert (c_id x) (c_id ` set rs) \<and>
          (distinct (map c_id rs) \<longrightarrow> distinct (map c_id rs1))"
    using d Cons.prems(2) by (auto split: if_splits)
  then obtain rs1 where rs1: "t_customers d = Some rs1"
    "c_id ` set rs1 = insert (c_id x) (c_id ` set rs)"
    "distinct (map c_id rs) \<longrightarrow> distinct (map c_id rs1)" by blast
  have "t_customers (cur c1) = Some rs1" "\<not> is_aborted (txn c1)"
    using c1_eq rs1(1) Cons.prems(3) by simp_all
  from Cons.IH [OF t this] obtain rs' where
    IH: "t_customers (cur c') = Some rs'" "c_id ` set rs' = c_id ` set rs1 \<union> c_id ` set cs"
      "distinct (map c_id rs1) \<longrightarrow> distinct (map c_id rs')" "txn c' = txn c1"
    by blast
  have "c_id ` set rs' = c_id ` set rs \<union> c_id ` set (x # cs)"
    using IH(2) rs1(2) by auto
  moreover have "txn c' = txn c" using IH(4) c1_eq by simp
  ultimately show ?case using IH(1,3) rs1(3) by blast
qed

lemma insert_revenue_ok:
  "promise_all e (map InsertRevenue xs) c = (None, c') \<Longrightarrow> t_revenue (cur c) = Some rs \<Longrightarrow>
   \<not> is_aborted (txn c) \<Longrightarrow>
   \<exists>rs'. t_revenue (cur c') = Some rs' \<and>
     r_month ` set rs' = r_month ` set rs \<union> r_month ` set xs \<and>
     (distinct (map r_month rs) \<longrightarrow> distinct (map r_month rs')) \<and>
     txn c' = txn c"
proof (induction xs arbitrary: c rs)
  case Nil
  then show ?case by simp
next
  case (Cons x xs)
  from promise_all_ok_Cons [of e "InsertRevenue x" "map InsertRevenue xs" c c'] Cons.prems(1)
  obtain c1 where c1: "client_sql e (InsertRevenue x) c = (None, c1)"
    and t: "promise_all e (map InsertRevenue xs) c1 = (None, c')" by auto
  from client_sql_ok [OF c1] obtain d where
    d: "run_stmt e (clock c) (InsertRevenue x) (cur c) = Inr d" and
    c1_eq: "c1 = c\<lparr>clock := Suc (clock c), log := log c @ [InsertRevenue x], cur := d\<rparr>"
    by auto
  have "\<exists>rs1. t_revenue d = Some rs1 \<and> r_month ` set rs1 = insert (r_month x) (r_month ` set rs) \<and>
          (distinct (map r_month rs) \<longrightarrow> distinct (map r_month rs1))"
    using d Cons.prems(2) by (auto split: if_splits)
  then obtain rs1 where rs1: "t_revenue d = Some rs1"
    "r_month ` set rs1 = insert (r_month x) (r_month ` set rs)"
    "distinct (map r_month rs) \<longrightarrow> distinct (map r_month rs1)" by blast
  have "t_revenue (cur c1) = Some rs1" "\<not> is_aborted (txn c1)"
    using c1_eq rs1(1) Cons.prems(3) by simp_all
  from Cons.IH [OF t this] obtain rs' where
    IH: "t_revenue (cur c') = Some rs'" "r_month ` set rs' = r_month ` set rs1 \<union> r_month ` set xs"
      "distinct (map r_month rs1) \<longrightarrow> distinct (map r_month rs')" "txn c' = txn c1"
    by blast
  have "r_month ` set rs' = r_month ` set rs \<union> r_month ` set (x # xs)"
    using IH(2) rs1(2) by auto
  moreover have "txn c' = txn c" using IH(4) c1_eq by simp
  ultimately show ?case using IH(1,3) rs1(3) by blast
qed


lemma frame_users:
  "step_of s \<noteq> Some 1 \<Longrightarrow> \<not> is_control s \<Longrightarrow>
   t_users (cur (snd (client_sql e s c))) = t_users (cur c)"
  by (cases s) (auto simp: client_sql_def Let_def split: option.splits)

lemma frame_customers:
  "step_of s \<noteq> Some 2 \<Longrightarrow> \<not> is_control s \<Longrightarrow>
   t_customers (cur (snd (client_sql e s c))) = t_customers (cur c)"
  by (cases s) (auto simp: client_sql_def Let_def split: option.splits)

lemma frame_invoices:
  "step_of s \<noteq> Some 3 \<Longrightarrow> \<not> is_control s \<Longrightarrow>
   t_invoices (cur (snd (client_sql e s c))) = t_invoices (cur c)"
  by (cases s) (auto simp: client_sql_def Let_def split: option.splits)

lemma frame_revenue:
  "step_of s \<noteq> Some 4 \<Longrightarrow> \<not> is_control s \<Longrightarrow>
   t_revenue (cur (snd (client_sql e s c))) = t_revenue (cur c)"
  by (cases s) (auto simp: client_sql_def Let_def split: option.splits)

lemma users_stmts_plain:
  "s \<in> users_stmts e us \<Longrightarrow>
   \<not> is_control s \<and> step_of s \<noteq> Some 2 \<and>
   step_of s \<noteq> Some 3 \<and> step_of s \<noteq> Some 4"
  by (auto simp: users_stmts_def)

lemma customers_stmts_plain:
  "s \<in> customers_stmts cs \<Longrightarrow>
   \<not> is_control s \<and> step_of s \<noteq> Some 1 \<and>
   step_of s \<noteq> Some 3 \<and> step_of s \<noteq> Some 4"
  by (auto simp: customers_stmts_def)

lemma invoices_stmts_plain:
  "s \<in> invoices_stmts is \<Longrightarrow>
   \<not> is_control s \<and> step_of s \<noteq> Some 1 \<and>
   step_of s \<noteq> Some 2 \<and> step_of s \<noteq> Some 4"
  by (auto simp: invoices_stmts_def)

lemma revenue_stmts_plain:
  "s \<in> revenue_stmts rs \<Longrightarrow>
   \<not> is_control s \<and> step_of s \<noteq> Some 1 \<and>
   step_of s \<noteq> Some 2 \<and> step_of s \<noteq> Some 3"
  by (auto simp: revenue_stmts_def)

lemma seedUsers_frame:
  assumes "seedUsers e us c = (r, c', late)"
  shows "t_customers (cur c') = t_customers (cur c) \<and> t_invoices (cur c') = t_invoices (cur c) \<and>
         t_revenue (cur c') = t_revenue (cur c)"
proof -
  let ?P = "\<lambda>d. t_customers (cur d) = t_customers (cur c) \<and> t_invoices (cur d) = t_invoices (cur c) \<and>
         t_revenue (cur d) = t_revenue (cur c)"
  have "?P c' \<and> set late \<subseteq> users_stmts e us"
  proof (rule seedUsers_inv [of "users_stmts e us" ?P e us c r c' late])
    show "?P (snd (client_sql e s d))" if "s \<in> users_stmts e us" and "?P d" for s d
      using that users_stmts_plain [OF that(1)]
      by (simp add: frame_customers frame_invoices frame_revenue)
  qed (simp_all add: assms)
  then show ?thesis by simp
qed

lemma seedCustomers_frame:
  "t_users (cur (snd (seedCustomers e cs c))) = t_users (cur c) \<and>
   t_invoices (cur (snd (seedCustomers e cs c))) = t_invoices (cur c) \<and>
   t_revenue (cur (snd (seedCustomers e cs c))) = t_revenue (cur c)"
proof -
  let ?P = "\<lambda>d. t_users (cur d) = t_users (cur c) \<and> t_invoices (cur d) = t_invoices (cur c) \<and>
         t_revenue (cur d) = t_revenue (cur c)"
  have "?P (snd (seedCustomers e cs c))"
  proof (rule seedCustomers_inv [of "customers_stmts cs" ?P])
    show "?P (snd (client_sql e s d))" if "s \<in> customers_stmts cs" and "?P d" for s d
      using that customers_stmts_plain [OF that(1)]
      by (simp add: frame_users frame_invoices frame_revenue)
  qed simp_all
  then show ?thesis by simp
qed

lemma seedInvoices_frame:
  "t_users (cur (snd (seedInvoices e is c))) = t_users (cur c) \<and>
   t_customers (cur (snd (seedInvoices e is c))) = t_customers (cur c) \<and>
   t_revenue (cur (snd (seedInvoices e is c))) = t_revenue (cur c)"
proof -
  let ?P = "\<lambda>d. t_users (cur d) = t_users (cur c) \<and> t_customers (cur d) = t_customers (cur c) \<and>
         t_revenue (cur d) = t_revenue (cur c)"
  have "?P (snd (seedInvoices e is c))"
  proof (rule seedInvoices_inv [of "invoices_stmts is" ?P])
    show "?P (snd (client_sql e s d))" if "s \<in> invoices_stmts is" and "?P d" for s d
      using that invoices_stmts_plain [OF that(1)]
      by (simp add: frame_users frame_customers frame_revenue)
  qed simp_all
  then show ?thesis by simp
qed

lemma seedRevenue_frame:
  "t_users (cur (snd (seedRevenue e rs c))) = t_users (cur c) \<and>
   t_customers (cur (snd (seedRevenue e rs c))) = t_customers (cur c) \<and>
   t_invoices (cur (snd (seedRevenue e rs c))) = t_invoices (cur c)"
proof -
  let ?P = "\<lambda>d. t_users (cur d) = t_users (cur c) \<and> t_customers (cur d) = t_customers (cur c) \<and>
         t_invoices (cur d) = t_invoices (cur c)"
  have "?P (snd (seedRevenue e rs c))"
  proof (rule seedRevenue_inv [of "revenue_stmts rs" ?P])
    show "?P (snd (client_sql e s d))" if "s \<in> revenue_stmts rs" and "?P d" for s d
      using that revenue_stmts_plain [OF that(1)]
      by (simp add: frame_users frame_customers frame_invoices)
  qed simp_all
  then show ?thesis by simp
qed

section \<open>Order of the statements\<close>

lemma steps_append [simp]: "steps (xs @ ys) = steps xs @ steps ys"
  by (simp add: steps_def List.map_filter_def)

lemma steps_Nil [simp]: "steps [] = []"
  by (simp add: steps_def)

lemma steps_Cons:
  "steps (s # ss) = (case step_of s of None \<Rightarrow> steps ss | Some k \<Rightarrow> k # steps ss)"
  by (simp add: steps_def split: option.split)

lemma steps_map_const:
  "(\<And>x. step_of (f x) = Some k) \<Longrightarrow> steps (map f xs) = replicate (length xs) k"
  by (induction xs) (simp_all add: steps_Cons)

lemma promise_all_log: "log (snd (promise_all e ss c)) = log c @ ss"
proof (induction ss arbitrary: c)
  case Nil
  show ?case by simp
next
  case (Cons s ss)
  have "log (snd (promise_all e ss (snd (client_sql e s c)))) = log c @ s # ss"
    by (simp add: Cons.IH client_sql_log)
  then show ?case by (simp split: prod.split) (metis snd_conv)
qed

lemma sent_in_step_start: "sent_in_step (log c) k c"
  by (simp add: sent_in_step_def)

lemma sent_in_step_sql:
  assumes "step_of s = None \<or> step_of s = Some k" and "sent_in_step l0 k c"
  shows "sent_in_step l0 k (snd (client_sql e s c))"
proof -
  from assms(2) obtain ss where ss: "log c = l0 @ ss" "set (steps ss) \<subseteq> {k}"
    by (auto simp: sent_in_step_def)
  have "log (snd (client_sql e s c)) = l0 @ (ss @ [s])"
    by (simp add: client_sql_log ss)
  moreover have "set (steps (ss @ [s])) \<subseteq> {k}"
    using assms(1) ss(2) by (auto simp: steps_Cons)
  ultimately show ?thesis unfolding sent_in_step_def by blast
qed

lemma sent_in_step_tick:
  "sent_in_step l0 k c \<Longrightarrow> sent_in_step l0 k (c\<lparr>clock := Suc (clock c)\<rparr>)"
  by (simp add: sent_in_step_def)

lemma users_stmts_step: "s \<in> users_stmts e us \<Longrightarrow> step_of s = None \<or> step_of s = Some 1"
  by (auto simp: users_stmts_def)

lemma customers_stmts_step: "s \<in> customers_stmts cs \<Longrightarrow> step_of s = None \<or> step_of s = Some 2"
  by (auto simp: customers_stmts_def)

lemma invoices_stmts_step: "s \<in> invoices_stmts is \<Longrightarrow> step_of s = None \<or> step_of s = Some 3"
  by (auto simp: invoices_stmts_def)

lemma revenue_stmts_step: "s \<in> revenue_stmts rs \<Longrightarrow> step_of s = None \<or> step_of s = Some 4"
  by (auto simp: revenue_stmts_def)

lemma seedUsers_log:
  assumes "seedUsers e us c = (r, c', late)"
  shows "\<exists>ss. log c' = log c @ ss \<and> set (steps ss) \<subseteq> {1} \<and> set (steps late) \<subseteq> {1}"
proof -
  have "sent_in_step (log c) 1 c' \<and> set late \<subseteq> users_stmts e us"
  proof (rule seedUsers_inv [of "users_stmts e us" "sent_in_step (log c) 1" e us c r c' late])
    show "sent_in_step (log c) 1 (snd (client_sql e s d))"
      if "s \<in> users_stmts e us" and "sent_in_step (log c) 1 d" for s d
      using that by (intro sent_in_step_sql users_stmts_step)
  qed (simp_all add: sent_in_step_tick sent_in_step_start assms)
  moreover have "set late \<subseteq> users_stmts e us \<Longrightarrow> set (steps late) \<subseteq> {1}"
  proof (induction late)
    case Nil
    show ?case by simp
  next
    case (Cons s late)
    then show ?case using users_stmts_step [of s e us] by (auto simp: steps_Cons)
  qed
  ultimately show ?thesis by (auto simp: sent_in_step_def)
qed

lemma seedCustomers_log:
  "\<exists>ss. log (snd (seedCustomers e cs c)) = log c @ ss \<and> set (steps ss) \<subseteq> {2}"
proof -
  have "sent_in_step (log c) 2 (snd (seedCustomers e cs c))"
  proof (rule seedCustomers_inv [of "customers_stmts cs"])
    show "sent_in_step (log c) 2 (snd (client_sql e s d))"
      if "s \<in> customers_stmts cs" and "sent_in_step (log c) 2 d" for s d
      using that by (intro sent_in_step_sql customers_stmts_step)
  qed (simp_all add: sent_in_step_start)
  then show ?thesis by (auto simp: sent_in_step_def)
qed

lemma seedInvoices_log:
  "\<exists>ss. log (snd (seedInvoices e is c)) = log c @ ss \<and> set (steps ss) \<subseteq> {3}"
proof -
  have "sent_in_step (log c) 3 (snd (seedInvoices e is c))"
  proof (rule seedInvoices_inv [of "invoices_stmts is"])
    show "sent_in_step (log c) 3 (snd (client_sql e s d))"
      if "s \<in> invoices_stmts is" and "sent_in_step (log c) 3 d" for s d
      using that by (intro sent_in_step_sql invoices_stmts_step)
  qed (simp_all add: sent_in_step_start)
  then show ?thesis by (auto simp: sent_in_step_def)
qed

lemma seedRevenue_log:
  "\<exists>ss. log (snd (seedRevenue e rs c)) = log c @ ss \<and> set (steps ss) \<subseteq> {4}"
proof -
  have "sent_in_step (log c) 4 (snd (seedRevenue e rs c))"
  proof (rule seedRevenue_inv [of "revenue_stmts rs"])
    show "sent_in_step (log c) 4 (snd (client_sql e s d))"
      if "s \<in> revenue_stmts rs" and "sent_in_step (log c) 4 d" for s d
      using that by (intro sent_in_step_sql revenue_stmts_step)
  qed (simp_all add: sent_in_step_start)
  then show ?thesis by (auto simp: sent_in_step_def)
qed

lemma sorted_const: "set xs \<subseteq> {k} \<Longrightarrow> sorted (xs :: nat list)"
  by (induction xs) auto

lemma try_block_log:
  assumes "try_block e fx c = (r, c', late)"
  shows "\<exists>ss. log c' = log c @ ss \<and> sorted (steps ss) \<and>
           (late \<noteq> [] \<longrightarrow> set (steps ss) \<subseteq> {1}) \<and> set (steps late) \<subseteq> {1}"
proof -
  obtain r1 c1 where c1: "client_sql e Begin c = (r1, c1)" by (cases "client_sql e Begin c")
  obtain r2 c2 l2 where c2: "seedUsers e (users fx) c1 = (r2, c2, l2)"
    by (cases "seedUsers e (users fx) c1")
  obtain r3 c3 where c3: "seedCustomers e (customers fx) c2 = (r3, c3)"
    by (cases "seedCustomers e (customers fx) c2")
  obtain r4 c4 where c4: "seedInvoices e (invoices fx) c3 = (r4, c4)"
    by (cases "seedInvoices e (invoices fx) c3")
  obtain r5 c5 where c5: "seedRevenue e (revenue fx) c4 = (r5, c5)"
    by (cases "seedRevenue e (revenue fx) c4")
  obtain r6 c6 where c6: "client_sql e Commit c5 = (r6, c6)" by (cases "client_sql e Commit c5")
  have l1: "log c1 = log c @ [Begin]" using client_sql_log [of e Begin c] c1 by simp
  obtain s2 where l2: "log c2 = log c1 @ s2" "set (steps s2) \<subseteq> {1}" "set (steps l2) \<subseteq> {1}"
    using seedUsers_log [OF c2] by blast
  obtain s3 where l3: "log c3 = log c2 @ s3" "set (steps s3) \<subseteq> {2}"
    using seedCustomers_log [of e "customers fx" c2] c3 by auto
  obtain s4 where l4: "log c4 = log c3 @ s4" "set (steps s4) \<subseteq> {3}"
    using seedInvoices_log [of e "invoices fx" c3] c4 by auto
  obtain s5 where l5: "log c5 = log c4 @ s5" "set (steps s5) \<subseteq> {4}"
    using seedRevenue_log [of e "revenue fx" c4] c5 by auto
  have l6: "log c6 = log c5 @ [Commit]" using client_sql_log [of e Commit c5] c6 by simp
  have b: "steps [Begin] = []" "steps [Commit] = []" by (simp_all add: steps_Cons)
  note so = sorted_const [OF l2(2)] sorted_const [OF l3(2)] sorted_const [OF l4(2)]
    sorted_const [OF l5(2)]
  have e2: "x = 1" if "x \<in> set (steps s2)" for x using that l2(2) by auto
  have e3: "x = 2" if "x \<in> set (steps s3)" for x using that l3(2) by auto
  have e4: "x = 3" if "x \<in> set (steps s4)" for x using that l4(2) by auto
  have e5: "x = 4" if "x \<in> set (steps s5)" for x using that l5(2) by auto
  consider (1) "r1 \<noteq> None" | (2) "r1 = None" "r2 \<noteq> None" | (3) "r1 = None" "r2 = None" "r3 \<noteq> None"
    | (4) "r1 = None" "r2 = None" "r3 = None" "r4 \<noteq> None"
    | (5) "r1 = None" "r2 = None" "r3 = None" "r4 = None" "r5 \<noteq> None"
    | (6) "r1 = None" "r2 = None" "r3 = None" "r4 = None" "r5 = None"
    by blast
  then show ?thesis
  proof cases
    case 1
    then have "c' = c1" "late = []" using assms c1 by (auto simp: try_block_def)
    then show ?thesis using l1 by (simp add: steps_Cons)
  next
    case 2
    then have "c' = c2" "late = l2" using assms c1 c2 by (auto simp: try_block_def)
    then have "log c' = log c @ ([Begin] @ s2)" using l1 l2 by simp
    moreover have "sorted (steps ([Begin] @ s2))" "set (steps ([Begin] @ s2)) \<subseteq> {1}"
      using l2 so b by (simp_all add: steps_Cons)
    ultimately show ?thesis using l2(3) \<open>late = l2\<close> by blast
  next
    case 3
    then have "c' = c3" "late = []" using assms c1 c2 c3 by (auto simp: try_block_def)
    then have "log c' = log c @ ([Begin] @ s2 @ s3)" using l1 l2 l3 by simp
    moreover have "sorted (steps ([Begin] @ s2 @ s3))"
      using l2 l3 so b by (auto simp: sorted_append steps_Cons dest!: e2 e3 e4 e5)
    ultimately show ?thesis using \<open>late = []\<close> by (metis empty_set empty_subsetI steps_Nil)
  next
    case 4
    then have "c' = c4" "late = []" using assms c1 c2 c3 c4 by (auto simp: try_block_def)
    then have "log c' = log c @ ([Begin] @ s2 @ s3 @ s4)" using l1 l2 l3 l4 by simp
    moreover have "sorted (steps ([Begin] @ s2 @ s3 @ s4))"
      using l2 l3 l4 so b by (auto simp: sorted_append steps_Cons dest!: e2 e3 e4 e5)
    ultimately show ?thesis using \<open>late = []\<close> by (metis empty_set empty_subsetI steps_Nil)
  next
    case 5
    then have "c' = c5" "late = []" using assms c1 c2 c3 c4 c5 by (auto simp: try_block_def)
    then have "log c' = log c @ ([Begin] @ s2 @ s3 @ s4 @ s5)" using l1 l2 l3 l4 l5 by simp
    moreover have "sorted (steps ([Begin] @ s2 @ s3 @ s4 @ s5))"
      using l2 l3 l4 l5 so b by (auto simp: sorted_append steps_Cons dest!: e2 e3 e4 e5)
    ultimately show ?thesis using \<open>late = []\<close> by (metis empty_set empty_subsetI steps_Nil)
  next
    case 6
    then have "c' = c6" "late = []" using assms c1 c2 c3 c4 c5 c6
      by (auto simp: try_block_def split: option.splits)
    then have "log c' = log c @ ([Begin] @ s2 @ s3 @ s4 @ s5 @ [Commit])"
      using l1 l2 l3 l4 l5 l6 by simp
    moreover have "sorted (steps ([Begin] @ s2 @ s3 @ s4 @ s5 @ [Commit]))"
      using l2 l3 l4 l5 so b by (auto simp: sorted_append steps_Cons dest!: e2 e3 e4 e5)
    ultimately show ?thesis using \<open>late = []\<close> by (metis empty_set empty_subsetI steps_Nil)
  qed
qed

lemma GET_log:
  "\<exists>ss. log (snd (GET e fx c)) = log c @ ss \<and> sorted (steps ss)"
proof -
  obtain r c1 late where t: "try_block e fx c = (r, c1, late)" by (cases "try_block e fx c")
  from try_block_log [OF t] obtain ss where ss: "log c1 = log c @ ss" "sorted (steps ss)"
    "late \<noteq> [] \<longrightarrow> set (steps ss) \<subseteq> {1}" "set (steps late) \<subseteq> {1}" by blast
  show ?thesis
  proof (cases r)
    case None
    then show ?thesis using t ss by (simp add: GET_def)
  next
    case (Some err)
    have "log (snd (GET e fx c)) = log c @ (ss @ [Rollback] @ late)"
      using t Some ss(1)
      by (auto simp: GET_def catch_block_def promise_all_log client_sql_log split: prod.split option.split)
         (metis client_sql_log promise_all_log snd_conv append.assoc append_Cons append_Nil)+
    moreover have "sorted (steps (ss @ [Rollback] @ late))"
    proof (cases "late = []")
      case True
      then show ?thesis using ss(2) by (simp add: steps_Cons)
    next
      case False
      then show ?thesis using ss(3,4) sorted_const [of "steps ss" 1] sorted_const [of "steps late" 1]
        by (auto simp: steps_Cons sorted_append)
    qed
    ultimately show ?thesis by blast
  qed
qed

section \<open>Properties of the tables\<close>

text \<open>
  A property of the tables that every statement of a run preserves holds of
  the connection after the handler whenever it held before: a \<^verbatim>\<open>ROLLBACK\<close>
  restores tables of which it held as well.
\<close>

lemma holds_sql:
  assumes "\<And>k d d'. Q d \<Longrightarrow> run_stmt e k s d = Inr d' \<Longrightarrow> Q d'" and "holds Q c"
  shows "holds Q (snd (client_sql e s c))"
proof (cases "is_control s")
  case True
  then show ?thesis using assms(2)
    by (cases s; cases "txn c") (auto simp: holds_def client_sql_def Let_def)
next
  case False
  show ?thesis
  proof (cases "run_stmt e (clock c) s (cur c)")
    case (Inl a)
    then show ?thesis using assms(2) False
      by (cases "txn c") (auto simp: holds_def client_sql_def Let_def)
  next
    case (Inr d')
    then have "Q d'" using assms by (auto simp: holds_def)
    then show ?thesis using assms(2) False Inr
      by (cases "txn c") (auto simp: holds_def client_sql_def Let_def)
  qed
qed

lemma holds_tick: "holds Q c \<Longrightarrow> holds Q (c\<lparr>clock := Suc (clock c)\<rparr>)"
  by (simp add: holds_def)

lemma GET_holds:
  assumes "\<And>s k d d'. s \<in> issued e fx \<Longrightarrow> Q d \<Longrightarrow> run_stmt e k s d = Inr d' \<Longrightarrow> Q d'"
    and "holds Q c"
  shows "holds Q (snd (GET e fx c))"
proof (rule GET_inv [of e fx "holds Q"])
  show "holds Q (snd (client_sql e s d))" if "s \<in> issued e fx" and "holds Q d" for s d
    using assms(1) [OF that(1)] that(2) by (rule holds_sql)
qed (simp_all add: holds_tick assms(2))

section \<open>Runs that go through\<close>

text \<open>
  When the \<^verbatim>\<open>try\<close> block succeeds, every step has succeeded in turn; each
  seeding function has then created its table where it was missing and added
  the fixture rows whose key was not there.
\<close>

lemma begin_ok:
  assumes "client_sql e Begin c = (None, c1)"
  shows "cur c1 = cur c \<and> \<not> is_aborted (txn c1) \<and> (txn c = Idle \<longrightarrow> txn c1 = InTx (cur c)) \<and>
         log c1 = log c @ [Begin] \<and> clock c1 = Suc (clock c)"
  using assms by (cases "txn c") (auto simp: client_sql_def Let_def split: if_splits)

lemma commit_ok:
  assumes "client_sql e Commit c = (None, c')" and "\<not> is_aborted (txn c)"
  shows "cur c' = cur c \<and> txn c' = Idle \<and> log c' = log c @ [Commit] \<and> clock c' = Suc (clock c)"
  using assms by (cases "txn c") (auto simp: client_sql_def Let_def split: if_splits)

lemma promise_all_ok_txn:
  "promise_all e ss c = (None, c') \<Longrightarrow> \<forall>s\<in>set ss. \<not> is_control s \<Longrightarrow>
   txn c' = txn c \<and> clock c' = clock c + length ss"
proof (induction ss arbitrary: c)
  case Nil
  then show ?case by simp
next
  case (Cons s ss)
  from promise_all_ok_Cons [OF Cons.prems(1)] obtain c1 where
    c1: "client_sql e s c = (None, c1)" and t: "promise_all e ss c1 = (None, c')" by blast
  from client_sql_ok [OF c1] Cons.prems(2) have "txn c1 = txn c" "clock c1 = Suc (clock c)" by auto
  with Cons.IH [OF t] Cons.prems(2) show ?case by simp
qed

lemma seedUsers_ok:
  assumes "seedUsers e us c = (None, c', late)"
  shows "late = [] \<and> txn c' = txn c \<and> \<not> is_aborted (txn c) \<and>
    (\<exists>rs' ss. t_users (cur c') = Some rs' \<and>
       u_id ` set rs' = u_id ` set (rows (t_users (cur c))) \<union> u_id ` set us \<and>
       (distinct (map u_id (rows (t_users (cur c)))) \<longrightarrow> distinct (map u_id rs')) \<and>
       log c' = log c @ ss \<and> steps ss = replicate (Suc (length us)) 1)"
proof -
  obtain r1 c1 where c1: "client_sql e CreateExtension c = (r1, c1)"
    by (cases "client_sql e CreateExtension c")
  obtain r2 c2 where c2: "client_sql e CreateUsers c1 = (r2, c2)"
    by (cases "client_sql e CreateUsers c1")
  from assms c1 c2 have r: "r1 = None" "r2 = None"
    and h: "hash_tasks e us c2 None None [] = (None, c', late)"
    by (auto simp: seedUsers_def split: option.splits)
  from client_sql_ok [of e CreateExtension c c1] c1 r(1)
  have na: "\<not> is_aborted (txn c)"
    and c1_eq: "c1 = c\<lparr>clock := Suc (clock c), log := log c @ [CreateExtension],
                  cur := (cur c)\<lparr>uuid_ossp := True\<rparr>\<rparr>" by auto
  from client_sql_ok [of e CreateUsers c1 c2] c2 r(2) obtain d where
    d: "run_stmt e (clock c1) CreateUsers (cur c1) = Inr d"
    and c2_eq: "c2 = c1\<lparr>clock := Suc (clock c1), log := log c1 @ [CreateUsers], cur := d\<rparr>"
    by auto
  have tu: "t_users (cur c2) = Some (rows (t_users (cur c)))"
    using d c2_eq c1_eq by (auto split: option.splits)
  have na2: "\<not> is_aborted (txn c2)" using na c1_eq c2_eq by simp
  from insert_users_ok [OF h tu na2] obtain rs' ss where
    *: "t_users (cur c') = Some rs'"
       "u_id ` set rs' = u_id ` set (rows (t_users (cur c))) \<union> u_id ` set us"
       "distinct (map u_id (rows (t_users (cur c)))) \<longrightarrow> distinct (map u_id rs')"
       "txn c' = txn c2" "log c' = log c2 @ ss" "steps ss = replicate (length us) 1"
    by blast
  have "log c' = log c @ ([CreateExtension, CreateUsers] @ ss)"
    using *(5) c1_eq c2_eq by simp
  moreover have "steps ([CreateExtension, CreateUsers] @ ss) = replicate (Suc (length us)) 1"
    using *(6) by (simp add: steps_Cons)
  moreover have "txn c' = txn c" using *(4) c1_eq c2_eq by simp
  moreover have "late = []" using hash_tasks_None [OF h] by simp
  ultimately show ?thesis using na *(1,2,3) by blast
qed

lemma seedCustomers_ok:
  assumes "seedCustomers e cs c = (None, c')"
  shows "txn c' = txn c \<and> \<not> is_aborted (txn c) \<and>
    (\<exists>rs'. t_customers (cur c') = Some rs' \<and>
       c_id ` set rs' = c_id ` set (rows (t_customers (cur c))) \<union> c_id ` set cs \<and>
       (distinct (map c_id (rows (t_customers (cur c)))) \<longrightarrow> distinct (map c_id rs'))) \<and>
    log c' = log c @ [CreateExtension, CreateCustomers] @ map InsertCustomer cs"
proof -
  obtain r1 c1 where c1: "client_sql e CreateExtension c = (r1, c1)"
    by (cases "client_sql e CreateExtension c")
  obtain r2 c2 where c2: "client_sql e CreateCustomers c1 = (r2, c2)"
    by (cases "client_sql e CreateCustomers c1")
  from assms c1 c2 have r: "r1 = None" "r2 = None"
    and h: "promise_all e (map InsertCustomer cs) c2 = (None, c')"
    by (auto simp: seedCustomers_def split: option.splits)
  from client_sql_ok [of e CreateExtension c c1] c1 r(1)
  have na: "\<not> is_aborted (txn c)"
    and c1_eq: "c1 = c\<lparr>clock := Suc (clock c), log := log c @ [CreateExtension],
                  cur := (cur c)\<lparr>uuid_ossp := True\<rparr>\<rparr>" by auto
  from client_sql_ok [of e CreateCustomers c1 c2] c2 r(2) obtain d where
    d: "run_stmt e (clock c1) CreateCustomers (cur c1) = Inr d"
    and c2_eq: "c2 = c1\<lparr>clock := Suc (clock c1), log := log c1 @ [CreateCustomers], cur := d\<rparr>"
    by auto
  have tu: "t_customers (cur c2) = Some (rows (t_customers (cur c)))"
    using d c2_eq c1_eq by (auto split: option.splits)
  have na2: "\<not> is_aborted (txn c2)" using na c1_eq c2_eq by simp
  from insert_customers_ok [OF h tu na2] obtain rs' where
    *: "t_customers (cur c') = Some rs'"
       "c_id ` set rs' = c_id ` set (rows (t_customers (cur c))) \<union> c_id ` set cs"
       "distinct (map c_id (rows (t_customers (cur c)))) \<longrightarrow> distinct (map c_id rs')"
       "txn c' = txn c2"
    by blast
  have "log c' = log c @ [CreateExtension, CreateCustomers] @ map InsertCustomer cs"
    using promise_all_log [of e "map InsertCustomer cs" c2] h c1_eq c2_eq by simp
  moreover have "txn c' = txn c" using *(4) c1_eq c2_eq by simp
  ultimately show ?thesis using na *(1,2,3) by blast
qed

lemma seedRevenue_ok:
  assumes "seedRevenue e xs c = (None, c')"
  shows "txn c' = txn c \<and> \<not> is_aborted (txn c) \<and>
    (\<exists>rs'. t_revenue (cur c') = Some rs' \<and>
       r_month ` set rs' = r_month ` set (rows (t_revenue (cur c))) \<union> r_month ` set xs \<and>
       (distinct (map r_month (rows (t_revenue (cur c)))) \<longrightarrow> distinct (map r_month rs'))) \<and>
    log c' = log c @ [CreateRevenue] @ map InsertRevenue xs"
proof -
  obtain r1 c1 where c1: "client_sql e CreateRevenue c = (r1, c1)"
    by (cases "client_sql e CreateRevenue c")
  from assms c1 have r: "r1 = None"
    and h: "promise_all e (map InsertRevenue xs) c1 = (None, c')"
    by (auto simp: seedRevenue_def split: option.splits)
  from client_sql_ok [of e CreateRevenue c c1] c1 r obtain d where
    na: "\<not> is_aborted (txn c)" and
    d: "run_stmt e (clock c) CreateRevenue (cur c) = Inr d"
    and c1_eq: "c1 = c\<lparr>clock := Suc (clock c), log := log c @ [CreateRevenue], cur := d\<rparr>"
    by auto
  have tu: "t_revenue (cur c1) = Some (rows (t_revenue (cur c)))"
    using d c1_eq by (auto split: option.splits)
  have na1: "\<not> is_aborted (txn c1)" using na c1_eq by simp
  from insert_revenue_ok [OF h tu na1] obtain rs' where
    *: "t_revenue (cur c') = Some rs'"
       "r_month ` set rs' = r_month ` set (rows (t_revenue (cur c))) \<union> r_month ` set xs"
       "distinct (map r_month (rows (t_revenue (cur c)))) \<longrightarrow> distinct (map r_month rs')"
       "txn c' = txn c1"
    by blast
  have "log c' = log c @ [CreateRevenue] @ map InsertRevenue xs"
    using promise_all_log [of e "map InsertRevenue xs" c1] h c1_eq by simp
  moreover have "txn c' = txn c" using *(4) c1_eq by simp
  ultimately show ?thesis using na *(1,2,3) by blast
qed

lemma seedInvoices_ok:
  assumes "seedInvoices e is c = (None, c')"
  shows "txn c' = txn c \<and> \<not> is_aborted (txn c) \<and>
    log c' = log c @ [CreateExtension, CreateInvoices] @ map InsertInvoice is"
proof -
  obtain r1 c1 where c1: "client_sql e CreateExtension c = (r1, c1)"
    by (cases "client_sql e CreateExtension c")
  obtain r2 c2 where c2: "client_sql e CreateInvoices c1 = (r2, c2)"
    by (cases "client_sql e CreateInvoices c1")
  from assms c1 c2 have r: "r1 = None" "r2 = None"
    and h: "promise_all e (map InsertInvoice is) c2 = (None, c')"
    by (auto simp: seedInvoices_def split: option.splits)
  from client_sql_ok [of e CreateExtension c c1] c1 r(1)
  have na: "\<not> is_aborted (txn c)"
    and c1_eq: "c1 = c\<lparr>clock := Suc (clock c), log := log c @ [CreateExtension],
                  cur := (cur c)\<lparr>uuid_ossp := True\<rparr>\<rparr>" by auto
  from client_sql_ok [of e CreateInvoices c1 c2] c2 r(2) obtain d where
    c2_eq: "c2 = c1\<lparr>clock := Suc (clock c1), log := log c1 @ [CreateInvoices], cur := d\<rparr>"
    by auto
  have "txn c' = txn c2" using promise_all_ok_txn [OF h] by simp
  moreover have "log c' = log c @ [CreateExtension, CreateInvoices] @ map InsertInvoice is"
    using promise_all_log [of e "map InsertInvoice is" c2] h c1_eq c2_eq by simp
  ultimately show ?thesis using na c1_eq c2_eq by simp
qed

lemma try_block_ok:
  assumes "try_block e fx c = (None, c', late)"
  obtains c1 c2 c3 c4 c5 where
    "client_sql e Begin c = (None, c1)"
    "seedUsers e (users fx) c1 = (None, c2, [])"
    "seedCustomers e (customers fx) c2 = (None, c3)"
    "seedInvoices e (invoices fx) c3 = (None, c4)"
    "seedRevenue e (revenue fx) c4 = (None, c5)"
    "client_sql e Commit c5 = (None, c')"
    "late = []"
proof -
  obtain r1 c1 where c1: "client_sql e Begin c = (r1, c1)" by (cases "client_sql e Begin c")
  obtain r2 c2 l2 where c2: "seedUsers e (users fx) c1 = (r2, c2, l2)"
    by (cases "seedUsers e (users fx) c1")
  obtain r3 c3 where c3: "seedCustomers e (customers fx) c2 = (r3, c3)"
    by (cases "seedCustomers e (customers fx) c2")
  obtain r4 c4 where c4: "seedInvoices e (invoices fx) c3 = (r4, c4)"
    by (cases "seedInvoices e (invoices fx) c3")
  obtain r5 c5 where c5: "seedRevenue e (revenue fx) c4 = (r5, c5)"
    by (cases "seedRevenue e (revenue fx) c4")
  obtain r6 c6 where c6: "client_sql e Commit c5 = (r6, c6)" by (cases "client_sql e Commit c5")
  from assms c1 have r1: "r1 = None" by (auto simp: try_block_def split: option.splits)
  from assms c1 c2 r1 have r2: "r2 = None" by (auto simp: try_block_def split: option.splits)
  from assms c1 c2 c3 r1 r2 have r3: "r3 = None" by (auto simp: try_block_def split: option.splits)
  from assms c1 c2 c3 c4 r1 r2 r3 have r4: "r4 = None"
    by (auto simp: try_block_def split: option.splits)
  from assms c1 c2 c3 c4 c5 r1 r2 r3 r4 have r5: "r5 = None"
    by (auto simp: try_block_def split: option.splits)
  from assms c1 c2 c3 c4 c5 c6 r1 r2 r3 r4 r5 have r6: "r6 = None" "c6 = c'" "late = []"
    by (auto simp: try_block_def split: option.splits)
  from seedUsers_ok [of e "users fx" c1 c2 l2] c2 r2 have "l2 = []" by simp
  with c1 c2 c3 c4 c5 c6 r1 r2 r3 r4 r5 r6 that show thesis by simp
qed

lemma GET_success:
  assumes "fst (GET e fx c) = success"
  shows "try_block e fx c = (None, snd (GET e fx c), [])"
proof -
  obtain r c1 late where t: "try_block e fx c = (r, c1, late)" by (cases "try_block e fx c")
  have "r = None"
  proof (cases r)
    case (Some err)
    with t assms show ?thesis
      by (auto simp: GET_def catch_block_def success_def split: prod.splits option.splits)
  qed
  with t have "try_block e fx c = (None, c1, late)" by simp
  moreover from this have "late = []" by (rule try_block_ok)
  moreover have "snd (GET e fx c) = c1" using t \<open>r = None\<close> by (simp add: GET_def)
  ultimately show ?thesis by simp
qed

section \<open>The fixed order of the steps\<close>

lemma in_steps: "s \<in> set xs \<Longrightarrow> step_of s = Some a \<Longrightarrow> a \<in> set (steps xs)"
  by (force simp: steps_def List.map_filter_def)

lemma sorted_steps_nth:
  assumes "sorted (steps ss)" and "i < j" and "j < length ss"
    and "step_of (ss ! i) = Some a" and "step_of (ss ! j) = Some b"
  shows "a \<le> b"
proof -
  have ss: "ss = take j ss @ ss ! j # drop (Suc j) ss"
    using assms(3) by (rule id_take_nth_drop)
  have "ss ! i \<in> set (take j ss)"
    using assms(2,3) by (metis in_set_conv_nth length_take min.absorb2 nth_take less_imp_le_nat)
  then have a: "a \<in> set (steps (take j ss))" using assms(4) by (rule in_steps)
  have "steps ss = steps (take j ss) @ b # steps (drop (Suc j) ss)"
    using assms(5) by (subst ss) (simp add: steps_Cons)
  with assms(1) a show ?thesis by (simp add: sorted_append)
qed

lemma try_block_ok_log:
  assumes "try_block e fx c = (None, c', late)"
  shows "\<exists>ss. log c' = log c @ ss \<and>
     steps ss = replicate (Suc (length (users fx))) 1 @ replicate (Suc (length (customers fx))) 2 @
                replicate (Suc (length (invoices fx))) 3 @ replicate (Suc (length (revenue fx))) 4"
proof -
  from assms obtain c1 c2 c3 c4 c5 where
    c1: "client_sql e Begin c = (None, c1)" and
    c2: "seedUsers e (users fx) c1 = (None, c2, [])" and
    c3: "seedCustomers e (customers fx) c2 = (None, c3)" and
    c4: "seedInvoices e (invoices fx) c3 = (None, c4)" and
    c5: "seedRevenue e (revenue fx) c4 = (None, c5)" and
    c6: "client_sql e Commit c5 = (None, c')"
    by (rule try_block_ok)
  have l1: "log c1 = log c @ [Begin]" using begin_ok [OF c1] by simp
  from seedUsers_ok [OF c2] obtain s2 where
    l2: "log c2 = log c1 @ s2" "steps s2 = replicate (Suc (length (users fx))) 1" by blast
  have l3: "log c3 = log c2 @ [CreateExtension, CreateCustomers] @ map InsertCustomer (customers fx)"
    using seedCustomers_ok [OF c3] by simp
  have l4: "log c4 = log c3 @ [CreateExtension, CreateInvoices] @ map InsertInvoice (invoices fx)"
    using seedInvoices_ok [OF c4] by simp
  have l5: "log c5 = log c4 @ [CreateRevenue] @ map InsertRevenue (revenue fx)"
    and na: "\<not> is_aborted (txn c5)"
    using seedRevenue_ok [OF c5] by simp_all
  have l6: "log c' = log c5 @ [Commit]" using commit_ok [OF c6 na] by simp
  let ?ss = "[Begin] @ s2 @ ([CreateExtension, CreateCustomers] @ map InsertCustomer (customers fx))
     @ ([CreateExtension, CreateInvoices] @ map InsertInvoice (invoices fx))
     @ ([CreateRevenue] @ map InsertRevenue (revenue fx)) @ [Commit]"
  have "log c' = log c @ ?ss" using l1 l2 l3 l4 l5 l6 by simp
  moreover have "steps ?ss = replicate (Suc (length (users fx))) 1 @ replicate (Suc (length (customers fx))) 2 @
                replicate (Suc (length (invoices fx))) 3 @ replicate (Suc (length (revenue fx))) 4"
    using l2(2) by (simp add: steps_Cons steps_map_const)
  ultimately show ?thesis by blast
qed


text \<open>
  C4. In every run, whatever its outcome, the statements sent are ordered by
  step: users, then customers, then invoices, then revenue. In particular no
  customer INSERT is sent after an invoice INSERT. A run that goes through
  sends, in this order, the \<^verbatim>\<open>CREATE TABLE\<close> and one INSERT per fixture row of
  each of the four steps.
\<close>

theorem steps_in_fixed_order:
  "\<exists>ss. log (snd (GET e fx c)) = log c @ ss \<and> sorted (steps ss) \<and>
     (\<forall>i j x y. i < length ss \<and> j < length ss \<and> ss ! i = InsertInvoice x \<and>
         ss ! j = InsertCustomer y \<longrightarrow> j < i) \<and>
     (fst (GET e fx c) = success \<longrightarrow>
        steps ss = replicate (Suc (length (users fx))) 1 @
                   replicate (Suc (length (customers fx))) 2 @
                   replicate (Suc (length (invoices fx))) 3 @
                   replicate (Suc (length (revenue fx))) 4)"
proof -
  from GET_log [of e fx c] obtain ss where
    ss: "log (snd (GET e fx c)) = log c @ ss" "sorted (steps ss)" by blast
  have order: "j < i" if "i < length ss" "j < length ss" "ss ! i = InsertInvoice x"
    "ss ! j = InsertCustomer y" for i j x y
  proof (rule ccontr)
    assume "\<not> j < i"
    moreover have "i \<noteq> j" using that(3,4) by auto
    ultimately have "i < j" by simp
    from sorted_steps_nth [OF ss(2) this that(2), of 3 2] that(3,4) show False by simp
  qed
  have "steps ss = replicate (Suc (length (users fx))) 1 @
                   replicate (Suc (length (customers fx))) 2 @
                   replicate (Suc (length (invoices fx))) 3 @
                   replicate (Suc (length (revenue fx))) 4"
    if "fst (GET e fx c) = success"
  proof -
    from try_block_ok_log [OF GET_success [OF that]] ss(1) show ?thesis by auto
  qed
  with ss order show ?thesis by blast
qed

theorem steps_in_fixed_order_witness:
  "\<exists>ss. log (snd (GET env_ok fixtures1 client0)) = log client0 @ ss \<and> sorted (steps ss) \<and>
     steps ss = [1, 1, 2, 2, 3, 3, 4, 4] \<and>
     ss ! 6 = InsertCustomer \<lparr>c_id = ''c1'', c_name = ''Acme'', c_email = ''a@acme.com'',
                     c_image_url = ''/img.png''\<rparr> \<and>
     ss ! 9 = InsertInvoice \<lparr>i_customer_id = ''c1'', i_amount = 500, i_status = ''paid'',
                    i_date = ''2024-01-01''\<rparr>"
proof -
  have s: "fst (GET env_ok fixtures1 client0) = success"
    by (simp add: run_defs success_def)
  have l: "log (snd (GET env_ok fixtures1 client0)) =
       [Begin, CreateExtension, CreateUsers,
        InsertUser \<lparr>u_id = ''u1'', u_name = ''Amy'', u_email = ''amy@x.com'',
            u_password = ''$2b$secret''\<rparr>,
        CreateExtension, CreateCustomers,
        InsertCustomer \<lparr>c_id = ''c1'', c_name = ''Acme'', c_email = ''a@acme.com'',
            c_image_url = ''/img.png''\<rparr>,
        CreateExtension, CreateInvoices,
        InsertInvoice \<lparr>i_customer_id = ''c1'', i_amount = 500, i_status = ''paid'',
            i_date = ''2024-01-01''\<rparr>,
        CreateRevenue, InsertRevenue \<lparr>r_month = ''Jan1'', r_revenue = 1000\<rparr>,
        Commit]"
    by (simp add: run_defs)
  from steps_in_fixed_order [of env_ok fixtures1 client0] s l
  show ?thesis by (auto simp: client0_def fixtures1_def numeral_eq_Suc)
qed

section \<open>The keyed tables\<close>

lemma try_block_ok_tables:
  assumes "try_block e fx c = (None, c', late)"
  shows "txn c' = Idle"
    and "\<exists>U. t_users (cur c') = Some U \<and>
       u_id ` set U = u_id ` set (rows (t_users (cur c))) \<union> u_id ` set (users fx) \<and>
       (distinct (map u_id (rows (t_users (cur c)))) \<longrightarrow> distinct (map u_id U))"
    and "\<exists>C. t_customers (cur c') = Some C \<and>
       c_id ` set C = c_id ` set (rows (t_customers (cur c))) \<union> c_id ` set (customers fx) \<and>
       (distinct (map c_id (rows (t_customers (cur c)))) \<longrightarrow> distinct (map c_id C))"
    and "\<exists>R. t_revenue (cur c') = Some R \<and>
       r_month ` set R = r_month ` set (rows (t_revenue (cur c))) \<union> r_month ` set (revenue fx) \<and>
       (distinct (map r_month (rows (t_revenue (cur c)))) \<longrightarrow> distinct (map r_month R))"
proof -
  from assms obtain c1 c2 c3 c4 c5 where
    c1: "client_sql e Begin c = (None, c1)" and
    c2: "seedUsers e (users fx) c1 = (None, c2, [])" and
    c3: "seedCustomers e (customers fx) c2 = (None, c3)" and
    c4: "seedInvoices e (invoices fx) c3 = (None, c4)" and
    c5: "seedRevenue e (revenue fx) c4 = (None, c5)" and
    c6: "client_sql e Commit c5 = (None, c')"
    by (rule try_block_ok)
  have b: "cur c1 = cur c" using begin_ok [OF c1] by simp
  have na: "\<not> is_aborted (txn c5)" using seedRevenue_ok [OF c5] by simp
  have e: "cur c' = cur c5" "txn c' = Idle" using commit_ok [OF c6 na] by simp_all
  note f2 = seedUsers_frame [OF c2]
  have f3: "t_users (cur c3) = t_users (cur c2)" "t_revenue (cur c3) = t_revenue (cur c2)"
    using seedCustomers_frame [of e "customers fx" c2] c3 by simp_all
  have f4: "t_users (cur c4) = t_users (cur c3)" "t_customers (cur c4) = t_customers (cur c3)"
    "t_revenue (cur c4) = t_revenue (cur c3)"
    using seedInvoices_frame [of e "invoices fx" c3] c4 by simp_all
  have f5: "t_users (cur c5) = t_users (cur c4)" "t_customers (cur c5) = t_customers (cur c4)"
    using seedRevenue_frame [of e "revenue fx" c4] c5 by simp_all
  have g: "t_users (cur c') = t_users (cur c2)" "t_customers (cur c') = t_customers (cur c3)"
    "t_customers (cur c2) = t_customers (cur c)" "t_revenue (cur c4) = t_revenue (cur c)"
    "t_revenue (cur c') = t_revenue (cur c5)" "t_users (cur c1) = t_users (cur c)"
    using e f2 f3 f4 f5 b by simp_all
  from seedUsers_ok [OF c2] obtain U where
    "t_users (cur c2) = Some U"
    "u_id ` set U = u_id ` set (rows (t_users (cur c1))) \<union> u_id ` set (users fx)"
    "distinct (map u_id (rows (t_users (cur c1)))) \<longrightarrow> distinct (map u_id U)"
    by blast
  then have U: "\<exists>U. t_users (cur c') = Some U \<and>
       u_id ` set U = u_id ` set (rows (t_users (cur c))) \<union> u_id ` set (users fx) \<and>
       (distinct (map u_id (rows (t_users (cur c)))) \<longrightarrow> distinct (map u_id U))"
    using g by simp
  from seedCustomers_ok [OF c3] obtain C where
    "t_customers (cur c3) = Some C"
    "c_id ` set C = c_id ` set (rows (t_customers (cur c2))) \<union> c_id ` set (customers fx)"
    "distinct (map c_id (rows (t_customers (cur c2)))) \<longrightarrow> distinct (map c_id C)"
    by blast
  then have C: "\<exists>C. t_customers (cur c') = Some C \<and>
       c_id ` set C = c_id ` set (rows (t_customers (cur c))) \<union> c_id ` set (customers fx) \<and>
       (distinct (map c_id (rows (t_customers (cur c)))) \<longrightarrow> distinct (map c_id C))"
    using g by simp
  from seedRevenue_ok [OF c5] obtain R where
    "t_revenue (cur c5) = Some R"
    "r_month ` set R = r_month ` set (rows (t_revenue (cur c4))) \<union> r_month ` set (revenue fx)"
    "distinct (map r_month (rows (t_revenue (cur c4)))) \<longrightarrow> distinct (map r_month R)"
    by blast
  then have R: "\<exists>R. t_revenue (cur c') = Some R \<and>
       r_month ` set R = r_month ` set (rows (t_revenue (cur c))) \<union> r_month ` set (revenue fx) \<and>
       (distinct (map r_month (rows (t_revenue (cur c)))) \<longrightarrow> distinct (map r_month R))"
    using g by simp
  from e(2) U C R show "txn c' = Idle"
    and "\<exists>U. t_users (cur c') = Some U \<and>
       u_id ` set U = u_id ` set (rows (t_users (cur c))) \<union> u_id ` set (users fx) \<and>
       (distinct (map u_id (rows (t_users (cur c)))) \<longrightarrow> distinct (map u_id U))"
    and "\<exists>C. t_customers (cur c') = Some C \<and>
       c_id ` set C = c_id ` set (rows (t_customers (cur c))) \<union> c_id ` set (customers fx) \<and>
       (distinct (map c_id (rows (t_customers (cur c)))) \<longrightarrow> distinct (map c_id C))"
    and "\<exists>R. t_revenue (cur c') = Some R \<and>
       r_month ` set R = r_month ` set (rows (t_revenue (cur c))) \<union> r_month ` set (revenue fx) \<and>
       (distinct (map r_month (rows (t_revenue (cur c)))) \<longrightarrow> distinct (map r_month R))"
    by - assumption+
qed

lemma keyed_tables_kept:
  assumes "u_id ` set (users fx) \<subseteq> u_id ` set U"
    and "c_id ` set (customers fx) \<subseteq> c_id ` set C"
    and "r_month ` set (revenue fx) \<subseteq> r_month ` set R"
    and "s \<in> issued e fx" and "keyed_tables U C R d" and "run_stmt e k s d = Inr d'"
  shows "keyed_tables U C R d'"
proof -
  consider (ctl) "s \<in> {Begin, Commit, Rollback, CreateExtension, CreateUsers, CreateCustomers,
        CreateInvoices, CreateRevenue}"
    | (u) u h where "s = InsertUser (u\<lparr>u_password := h\<rparr>)" "u \<in> set (users fx)"
    | (c) x where "s = InsertCustomer x" "x \<in> set (customers fx)"
    | (i) x where "s = InsertInvoice x"
    | (r) x where "s = InsertRevenue x" "x \<in> set (revenue fx)"
    using assms(4)
    by (auto simp: issued_def users_stmts_def customers_stmts_def invoices_stmts_def
        revenue_stmts_def)
  then show ?thesis
  proof cases
    case ctl
    then show ?thesis using assms(5,6) by (auto simp: keyed_tables_def split: option.splits)
  next
    case u
    then have "u_id u \<in> u_id ` set U" using assms(1) by blast
    then show ?thesis using u assms(5,6) by (auto simp: keyed_tables_def)
  next
    case c
    then have "c_id x \<in> c_id ` set C" using assms(2) by blast
    then show ?thesis using c assms(5,6) by (auto simp: keyed_tables_def)
  next
    case i
    then show ?thesis using assms(5,6)
      by (auto simp: keyed_tables_def split: option.splits if_splits)
  next
    case r
    then have "r_month x \<in> r_month ` set R" using assms(3) by blast
    then show ?thesis using r assms(5,6) by (auto simp: keyed_tables_def)
  qed
qed


text \<open>
  C2. A run that goes through on an empty database leaves \<^verbatim>\<open>users\<close>,
  \<^verbatim>\<open>customers\<close> and \<^verbatim>\<open>revenue\<close> with one row per key of the fixtures (user id,
  customer id, month) and no other. A second run from there, whatever its
  outcome, leaves the three tables as they are.
\<close>

theorem keyed_tables_idempotent:
  assumes "cur c = empty_database"
    and "GET e fx c = (success, c1)" and "GET e fx c1 = (out2, c2)"
  shows "\<exists>U C R.
     t_users (cur c1) = Some U \<and> distinct (map u_id U) \<and>
       set (map u_id U) = set (map u_id (users fx)) \<and>
     t_customers (cur c1) = Some C \<and> distinct (map c_id C) \<and>
       set (map c_id C) = set (map c_id (customers fx)) \<and>
     t_revenue (cur c1) = Some R \<and> distinct (map r_month R) \<and>
       set (map r_month R) = set (map r_month (revenue fx)) \<and>
     t_users (cur c2) = Some U \<and> t_customers (cur c2) = Some C \<and> t_revenue (cur c2) = Some R"
proof -
  from assms(2) have "try_block e fx c = (None, c1, [])"
    using GET_success [of e fx c] by simp
  note t = try_block_ok_tables [OF this]
  have 1: "txn c1 = Idle" by (rule t(1))
  from t(2) assms(1) obtain U where
    U: "t_users (cur c1) = Some U" "u_id ` set U = u_id ` set (users fx)" "distinct (map u_id U)"
    by (auto simp: empty_database_def)
  from t(3) assms(1) obtain C where
    C: "t_customers (cur c1) = Some C" "c_id ` set C = c_id ` set (customers fx)"
      "distinct (map c_id C)"
    by (auto simp: empty_database_def)
  from t(4) assms(1) obtain R where
    R: "t_revenue (cur c1) = Some R" "r_month ` set R = r_month ` set (revenue fx)"
      "distinct (map r_month R)"
    by (auto simp: empty_database_def)
  have "holds (keyed_tables U C R) c1"
    using 1 U(1) C(1) R(1) by (simp add: holds_def keyed_tables_def)
  then have "holds (keyed_tables U C R) (snd (GET e fx c1))"
    by (rule GET_holds [rotated]) (rule keyed_tables_kept [of fx U C R], simp_all add: U C R)
  then have "keyed_tables U C R (cur c2)" using assms(3) by (simp add: holds_def)
  then show ?thesis using U C R by (auto simp: keyed_tables_def)
qed

theorem keyed_tables_idempotent_witness:
  "cur client0 = empty_database \<and>
   GET env_ok fixtures1 client0 = (success, seeded1) \<and>
   (\<exists>U C R.
     t_users (cur seeded1) = Some U \<and> distinct (map u_id U) \<and>
       set (map u_id U) = set (map u_id (users fixtures1)) \<and>
     t_customers (cur seeded1) = Some C \<and> distinct (map c_id C) \<and>
       set (map c_id C) = set (map c_id (customers fixtures1)) \<and>
     t_revenue (cur seeded1) = Some R \<and> distinct (map r_month R) \<and>
       set (map r_month R) = set (map r_month (revenue fixtures1)) \<and>
     t_users (cur (snd (GET env_ok fixtures1 seeded1))) = Some U \<and>
     t_customers (cur (snd (GET env_ok fixtures1 seeded1))) = Some C \<and>
     t_revenue (cur (snd (GET env_ok fixtures1 seeded1))) = Some R)"
proof -
  have a: "cur client0 = empty_database" by (simp add: client0_def)
  have b: "GET env_ok fixtures1 client0 = (success, seeded1)"
    by (simp add: seeded1_def success_def prod_eq_iff) (simp add: run_defs)
  have c: "GET env_ok fixtures1 seeded1 =
      (fst (GET env_ok fixtures1 seeded1), snd (GET env_ok fixtures1 seeded1))" by simp
  from keyed_tables_idempotent [OF a b c] a b show ?thesis by simp
qed


section \<open>Invoices and their customers\<close>

lemma insert_invoices_rows:
  "promise_all e (map InsertInvoice is) c = (None, c') \<Longrightarrow> t_invoices (cur c) = Some rs \<Longrightarrow>
   \<exists>new. t_invoices (cur c') = Some (rs @ new) \<and> row_invoice ` set new \<subseteq> set is"
proof (induction "is" arbitrary: c rs)
  case Nil
  then show ?case by simp
next
  case (Cons x xs)
  from promise_all_ok_Cons [of e "InsertInvoice x" "map InsertInvoice xs" c c'] Cons.prems(1)
  obtain c1 where c1: "client_sql e (InsertInvoice x) c = (None, c1)"
    and t: "promise_all e (map InsertInvoice xs) c1 = (None, c')" by auto
  from client_sql_ok [OF c1] obtain d where
    d: "run_stmt e (clock c) (InsertInvoice x) (cur c) = Inr d" and
    c1_eq: "c1 = c\<lparr>clock := Suc (clock c), log := log c @ [InsertInvoice x], cur := d\<rparr>"
    by auto
  have "\<exists>n1. t_invoices d = Some (rs @ n1) \<and> row_invoice ` set n1 \<subseteq> {x}"
    using d Cons.prems(2) by (auto split: if_splits)
  then obtain n1 where n1: "t_invoices d = Some (rs @ n1)" "row_invoice ` set n1 \<subseteq> {x}" by blast
  have "t_invoices (cur c1) = Some (rs @ n1)" using c1_eq n1(1) by simp
  from Cons.IH [OF t this] obtain new where
    "t_invoices (cur c') = Some ((rs @ n1) @ new)" "row_invoice ` set new \<subseteq> set xs" by blast
  then have "t_invoices (cur c') = Some (rs @ (n1 @ new))"
    "row_invoice ` set (n1 @ new) \<subseteq> set (x # xs)"
    using n1(2) by auto
  then show ?case by blast
qed

lemma seedInvoices_ok_rows:
  assumes "seedInvoices e is c = (None, c')"
  shows "\<exists>new. t_invoices (cur c') = Some (rows (t_invoices (cur c)) @ new) \<and>
           row_invoice ` set new \<subseteq> set is"
proof -
  obtain r1 c1 where c1: "client_sql e CreateExtension c = (r1, c1)"
    by (cases "client_sql e CreateExtension c")
  obtain r2 c2 where c2: "client_sql e CreateInvoices c1 = (r2, c2)"
    by (cases "client_sql e CreateInvoices c1")
  from assms c1 c2 have r: "r1 = None" "r2 = None"
    and h: "promise_all e (map InsertInvoice is) c2 = (None, c')"
    by (auto simp: seedInvoices_def split: option.splits)
  from client_sql_ok [of e CreateExtension c c1] c1 r(1)
  have c1_eq: "c1 = c\<lparr>clock := Suc (clock c), log := log c @ [CreateExtension],
                  cur := (cur c)\<lparr>uuid_ossp := True\<rparr>\<rparr>" by auto
  from client_sql_ok [of e CreateInvoices c1 c2] c2 r(2) obtain d where
    d: "run_stmt e (clock c1) CreateInvoices (cur c1) = Inr d"
    and c2_eq: "c2 = c1\<lparr>clock := Suc (clock c1), log := log c1 @ [CreateInvoices], cur := d\<rparr>"
    by auto
  have "t_invoices (cur c2) = Some (rows (t_invoices (cur c)))"
    using d c2_eq c1_eq by (auto split: option.splits)
  from insert_invoices_rows [OF h this] show ?thesis .
qed


text \<open>
  C8. When every invoice fixture names the \<^verbatim>\<open>id\<close> of a customer fixture, a run
  that goes through on an empty database leaves every row of \<^verbatim>\<open>invoices\<close> with
  a \<^verbatim>\<open>customer_id\<close> that is the \<^verbatim>\<open>id\<close> of a row of \<^verbatim>\<open>customers\<close>.
\<close>

theorem invoices_reference_customers:
  assumes "cur c = empty_database" and "GET e fx c = (success, c')"
    and "\<forall>i \<in> set (invoices fx). i_customer_id i \<in> c_id ` set (customers fx)"
  shows "\<exists>C I. t_customers (cur c') = Some C \<and> t_invoices (cur c') = Some I \<and>
           (\<forall>r \<in> set I. i_customer_id (row_invoice r) \<in> c_id ` set C)"
proof -
  from assms(2) have t: "try_block e fx c = (None, c', [])"
    using GET_success [of e fx c] by simp
  from try_block_ok_tables(3) [OF t] obtain C where
    C: "t_customers (cur c') = Some C" "c_id ` set (customers fx) \<subseteq> c_id ` set C" by auto
  from t obtain c1 c2 c3 c4 c5 where
    c1: "client_sql e Begin c = (None, c1)" and
    c2: "seedUsers e (users fx) c1 = (None, c2, [])" and
    c3: "seedCustomers e (customers fx) c2 = (None, c3)" and
    c4: "seedInvoices e (invoices fx) c3 = (None, c4)" and
    c5: "seedRevenue e (revenue fx) c4 = (None, c5)" and
    c6: "client_sql e Commit c5 = (None, c')"
    by (rule try_block_ok)
  have "t_invoices (cur c3) = t_invoices (cur c)"
    using begin_ok [OF c1] seedUsers_frame [OF c2] seedCustomers_frame [of e "customers fx" c2] c3
    by simp
  then have "rows (t_invoices (cur c3)) = []" using assms(1) by (simp add: empty_database_def)
  moreover from seedInvoices_ok_rows [OF c4] obtain I where
    "t_invoices (cur c4) = Some (rows (t_invoices (cur c3)) @ I)"
    "row_invoice ` set I \<subseteq> set (invoices fx)" by (elim exE conjE)
  ultimately have I: "t_invoices (cur c4) = Some I" "row_invoice ` set I \<subseteq> set (invoices fx)"
    by simp_all
  have na: "\<not> is_aborted (txn c5)" using seedRevenue_ok [OF c5] by simp
  have "t_invoices (cur c') = t_invoices (cur c4)"
    using commit_ok [OF c6 na] seedRevenue_frame [of e "revenue fx" c4] c5 by simp
  with I(1) have "t_invoices (cur c') = Some I" by simp
  moreover have "i_customer_id (row_invoice r) \<in> c_id ` set C" if "r \<in> set I" for r
  proof -
    from that I(2) have "row_invoice r \<in> set (invoices fx)" by blast
    with assms(3) C(2) show ?thesis by blast
  qed
  ultimately show ?thesis using C(1) by blast
qed

theorem invoices_reference_customers_witness:
  "cur client0 = empty_database \<and> GET env_ok fixtures1 client0 = (success, seeded1) \<and>
   i_customer_id (hd (invoices fixtures1)) \<in> c_id ` set (customers fixtures1) \<and>
   (\<exists>C I. t_customers (cur seeded1) = Some C \<and> t_invoices (cur seeded1) = Some I \<and>
           list_all (\<lambda>r. i_customer_id (row_invoice r) \<in> c_id ` set C) I)"
proof -
  have a: "cur client0 = empty_database" by (simp add: client0_def)
  have b: "GET env_ok fixtures1 client0 = (success, seeded1)"
    by (simp add: seeded1_def success_def prod_eq_iff) (simp add: run_defs)
  have c: "\<forall>i \<in> set (invoices fixtures1). i_customer_id i \<in> c_id ` set (customers fixtures1)"
    by (simp add: fixtures1_def)
  from invoices_reference_customers [OF a b c] a b c show ?thesis
    by (simp add: list_all_iff fixtures1_def)
qed

section \<open>Invoices on a second run\<close>

lemma generated_ids_later:
  "generated_ids e c \<Longrightarrow> rows (t_invoices (cur c')) = rows (t_invoices (cur c)) \<Longrightarrow>
   clock c \<le> clock c' \<Longrightarrow> generated_ids e c'"
proof -
  assume g: "generated_ids e c" and t: "rows (t_invoices (cur c')) = rows (t_invoices (cur c))"
    and k: "clock c \<le> clock c'"
  from k have m: "uuid_generate_v4 e ` {..<clock c} \<subseteq> uuid_generate_v4 e ` {..<clock c'}"
    by (intro image_mono) simp
  from g have a: "row_id ` set (rows (t_invoices (cur c))) \<subseteq> uuid_generate_v4 e ` {..<clock c}"
    and d: "distinct (map row_id (rows (t_invoices (cur c))))"
    by (simp_all add: generated_ids_def)
  from a m have "row_id ` set (rows (t_invoices (cur c))) \<subseteq> uuid_generate_v4 e ` {..<clock c'}"
    by (rule subset_trans)
  with d t show ?thesis by (simp add: generated_ids_def)
qed

lemma seedUsers_clock:
  assumes "seedUsers e us c = (r, c', late)"
  shows "clock c \<le> clock c'"
proof -
  have "clock c \<le> clock c' \<and> set late \<subseteq> UNIV"
    by (rule seedUsers_inv [of UNIV "\<lambda>d. clock c \<le> clock d" e us c r c' late])
       (simp_all add: client_sql_clock assms)
  then show ?thesis by simp
qed

lemma seedCustomers_clock: "clock c \<le> clock (snd (seedCustomers e cs c))"
  by (rule seedCustomers_inv [of UNIV "\<lambda>d. clock c \<le> clock d"]) (simp_all add: client_sql_clock)

lemma seedRevenue_clock: "clock c \<le> clock (snd (seedRevenue e rs c))"
  by (rule seedRevenue_inv [of UNIV "\<lambda>d. clock c \<le> clock d"]) (simp_all add: client_sql_clock)

lemma insert_invoices_fresh:
  "promise_all e (map InsertInvoice is) c = (None, c') \<Longrightarrow> t_invoices (cur c) = Some rs \<Longrightarrow>
   inj (uuid_generate_v4 e) \<Longrightarrow> generated_ids e c \<Longrightarrow>
   \<exists>new. t_invoices (cur c') = Some (rs @ new) \<and> map row_invoice new = is \<and> generated_ids e c'"
proof (induction "is" arbitrary: c rs)
  case Nil
  then show ?case by simp
next
  case (Cons x xs)
  let ?g = "uuid_generate_v4 e (clock c)"
  from promise_all_ok_Cons [of e "InsertInvoice x" "map InsertInvoice xs" c c'] Cons.prems(1)
  obtain c1 where c1: "client_sql e (InsertInvoice x) c = (None, c1)"
    and t: "promise_all e (map InsertInvoice xs) c1 = (None, c')" by auto
  from client_sql_ok [OF c1] obtain d where
    d: "run_stmt e (clock c) (InsertInvoice x) (cur c) = Inr d" and
    c1_eq: "c1 = c\<lparr>clock := Suc (clock c), log := log c @ [InsertInvoice x], cur := d\<rparr>"
    by auto
  have ids: "row_id ` set rs \<subseteq> uuid_generate_v4 e ` {..<clock c}" "distinct (map row_id rs)"
    using Cons.prems(2,4) by (simp_all add: generated_ids_def)
  have fresh: "?g \<notin> row_id ` set rs"
  proof
    assume "?g \<in> row_id ` set rs"
    with ids(1) obtain k where "k < clock c" "?g = uuid_generate_v4 e k" by auto
    with Cons.prems(3) show False by (auto dest: injD)
  qed
  then have d_eq: "t_invoices d = Some (rs @ [\<lparr>row_id = ?g, row_invoice = x\<rparr>])"
    using d Cons.prems(2) by (auto split: if_splits)
  then have t1: "t_invoices (cur c1) = Some (rs @ [\<lparr>row_id = ?g, row_invoice = x\<rparr>])"
    using c1_eq by simp
  have "row_id ` set (rs @ [\<lparr>row_id = ?g, row_invoice = x\<rparr>])
          \<subseteq> uuid_generate_v4 e ` {..<Suc (clock c)}"
    using ids(1) by (auto simp: less_Suc_eq)
  moreover have "distinct (map row_id (rs @ [\<lparr>row_id = ?g, row_invoice = x\<rparr>]))"
    using ids(2) fresh by simp
  ultimately have g1: "generated_ids e c1"
    using t1 c1_eq by (simp add: generated_ids_def)
  from Cons.IH [OF t t1 Cons.prems(3) g1] obtain new where
    "t_invoices (cur c') = Some ((rs @ [\<lparr>row_id = ?g, row_invoice = x\<rparr>]) @ new)"
    "map row_invoice new = xs" "generated_ids e c'" by blast
  then have "t_invoices (cur c') = Some (rs @ (\<lparr>row_id = ?g, row_invoice = x\<rparr> # new))"
    "map row_invoice (\<lparr>row_id = ?g, row_invoice = x\<rparr> # new) = x # xs" "generated_ids e c'"
    by simp_all
  then show ?case by (intro exI conjI)
qed

lemma seedInvoices_ok_fresh:
  assumes "seedInvoices e is c = (None, c')" and "inj (uuid_generate_v4 e)"
    and "generated_ids e c"
  shows "\<exists>new. t_invoices (cur c') = Some (rows (t_invoices (cur c)) @ new) \<and>
           map row_invoice new = is \<and> generated_ids e c'"
proof -
  obtain r1 c1 where c1: "client_sql e CreateExtension c = (r1, c1)"
    by (cases "client_sql e CreateExtension c")
  obtain r2 c2 where c2: "client_sql e CreateInvoices c1 = (r2, c2)"
    by (cases "client_sql e CreateInvoices c1")
  from assms(1) c1 c2 have r: "r1 = None" "r2 = None"
    and h: "promise_all e (map InsertInvoice is) c2 = (None, c')"
    by (auto simp: seedInvoices_def split: option.splits)
  from client_sql_ok [of e CreateExtension c c1] c1 r(1)
  have c1_eq: "c1 = c\<lparr>clock := Suc (clock c), log := log c @ [CreateExtension],
                  cur := (cur c)\<lparr>uuid_ossp := True\<rparr>\<rparr>" by auto
  from client_sql_ok [of e CreateInvoices c1 c2] c2 r(2) obtain d where
    d: "run_stmt e (clock c1) CreateInvoices (cur c1) = Inr d"
    and c2_eq: "c2 = c1\<lparr>clock := Suc (clock c1), log := log c1 @ [CreateInvoices], cur := d\<rparr>"
    by auto
  have t2: "t_invoices (cur c2) = Some (rows (t_invoices (cur c)))"
    using d c2_eq c1_eq by (auto split: option.splits)
  have "rows (t_invoices (cur c2)) = rows (t_invoices (cur c))" "clock c \<le> clock c2"
    using t2 c1_eq c2_eq by simp_all
  then have "generated_ids e c2"
    by (rule generated_ids_later [OF assms(3)])
  from insert_invoices_fresh [OF h t2 assms(2) this] show ?thesis .
qed

lemma try_block_ok_invoices:
  assumes "try_block e fx c = (None, c', late)" and "inj (uuid_generate_v4 e)"
    and "generated_ids e c"
  shows "\<exists>new. t_invoices (cur c') = Some (rows (t_invoices (cur c)) @ new) \<and>
           map row_invoice new = invoices fx \<and> generated_ids e c'"
proof -
  from assms(1) obtain c1 c2 c3 c4 c5 where
    c1: "client_sql e Begin c = (None, c1)" and
    c2: "seedUsers e (users fx) c1 = (None, c2, [])" and
    c3: "seedCustomers e (customers fx) c2 = (None, c3)" and
    c4: "seedInvoices e (invoices fx) c3 = (None, c4)" and
    c5: "seedRevenue e (revenue fx) c4 = (None, c5)" and
    c6: "client_sql e Commit c5 = (None, c')"
    by (rule try_block_ok)
  have g1: "generated_ids e c1"
    using begin_ok [OF c1] by (intro generated_ids_later [OF assms(3)]) simp_all
  have g2: "generated_ids e c2"
    using seedUsers_frame [OF c2] seedUsers_clock [OF c2]
    by (intro generated_ids_later [OF g1]) simp_all
  have g3: "generated_ids e c3"
    using seedCustomers_frame [of e "customers fx" c2] seedCustomers_clock [of c2 e "customers fx"] c3
    by (intro generated_ids_later [OF g2]) simp_all
  have same: "t_invoices (cur c3) = t_invoices (cur c)"
    using begin_ok [OF c1] seedUsers_frame [OF c2] seedCustomers_frame [of e "customers fx" c2] c3
    by simp
  from seedInvoices_ok_fresh [OF c4 assms(2) g3] same obtain new where
    new: "t_invoices (cur c4) = Some (rows (t_invoices (cur c)) @ new)"
      "map row_invoice new = invoices fx" "generated_ids e c4" by auto
  have g5: "generated_ids e c5"
    using seedRevenue_frame [of e "revenue fx" c4] seedRevenue_clock [of c4 e "revenue fx"] c5
    by (intro generated_ids_later [OF new(3)]) simp_all
  have na: "\<not> is_aborted (txn c5)" using seedRevenue_ok [OF c5] by simp
  have g6: "generated_ids e c'"
    using commit_ok [OF c6 na] by (intro generated_ids_later [OF g5]) simp_all
  have "t_invoices (cur c') = t_invoices (cur c4)"
    using commit_ok [OF c6 na] seedRevenue_frame [of e "revenue fx" c4] c5 by simp
  with new g6 show ?thesis by simp
qed


text \<open>
  C3. The invoice INSERT supplies no \<^verbatim>\<open>id\<close>, so its conflict clause can only
  fire on a generated one. With a generator that never repeats an identifier,
  a run that goes through on an empty database leaves one \<^verbatim>\<open>invoices\<close> row
  per fixture, in order and with the fixture's field values, and a second run
  that goes through appends as many rows again, with the same field values
  and ids that differ from one another and from the ids of the first run: for
  \<open>n\<close> fixtures the table then holds \<open>2 * n\<close> rows.
\<close>

theorem invoices_duplicated_on_rerun:
  assumes "cur c = empty_database" and "inj (uuid_generate_v4 e)"
    and "GET e fx c = (success, c1)" and "GET e fx c1 = (success, c2)"
  shows "\<exists>I1 I2.
     t_invoices (cur c1) = Some I1 \<and> map row_invoice I1 = invoices fx \<and>
     t_invoices (cur c2) = Some (I1 @ I2) \<and> map row_invoice I2 = invoices fx \<and>
     distinct (map row_id (I1 @ I2)) \<and>
     length (I1 @ I2) = 2 * length (invoices fx)"
proof -
  have t1: "try_block e fx c = (None, c1, [])" using GET_success [of e fx c] assms(3) by simp
  have t2: "try_block e fx c1 = (None, c2, [])" using GET_success [of e fx c1] assms(4) by simp
  have g0: "generated_ids e c" using assms(1) by (simp add: generated_ids_def empty_database_def)
  from try_block_ok_invoices [OF t1 assms(2) g0] assms(1) obtain I1 where
    I1: "t_invoices (cur c1) = Some I1" "map row_invoice I1 = invoices fx" "generated_ids e c1"
    by (auto simp: empty_database_def)
  from try_block_ok_invoices [OF t2 assms(2) I1(3)] I1(1) obtain I2 where
    I2: "t_invoices (cur c2) = Some (I1 @ I2)" "map row_invoice I2 = invoices fx" "generated_ids e c2"
    by auto
  have "distinct (map row_id (I1 @ I2))" using I2(1,3) by (simp add: generated_ids_def)
  moreover have "length (I1 @ I2) = 2 * length (invoices fx)"
    using arg_cong [OF I1(2), of length] arg_cong [OF I2(2), of length] by simp
  ultimately show ?thesis using I1(1,2) I2(1,2) by blast
qed

theorem invoices_duplicated_on_rerun_witness:
  "cur client0 = empty_database \<and> inj (uuid_generate_v4 env_ok) \<and>
   GET env_ok fixtures1 client0 = (success, seeded1) \<and>
   fst (GET env_ok fixtures1 seeded1) = success \<and>
   (\<exists>I1 I2.
     t_invoices (cur seeded1) = Some I1 \<and> map row_invoice I1 = invoices fixtures1 \<and>
     t_invoices (cur (snd (GET env_ok fixtures1 seeded1))) = Some (I1 @ I2) \<and>
     map row_invoice I2 = invoices fixtures1 \<and>
     distinct (map row_id (I1 @ I2)) \<and>
     length (I1 @ I2) = 2 * length (invoices fixtures1))"
proof -
  have a: "cur client0 = empty_database" by (simp add: client0_def)
  have i: "inj (uuid_generate_v4 env_ok)" by (simp add: env_ok_def inj_def)
  have b: "GET env_ok fixtures1 client0 = (success, seeded1)"
    by (simp add: seeded1_def success_def prod_eq_iff) (simp add: run_defs)
  have s: "fst (GET env_ok fixtures1 seeded1) = success"
    by (simp add: run_defs seeded1_def success_def)
  then have c: "GET env_ok fixtures1 seeded1 = (success, snd (GET env_ok fixtures1 seeded1))"
    by (simp add: prod_eq_iff)
  from invoices_duplicated_on_rerun [OF a i b c] a i b s show ?thesis by blast
qed

section \<open>Stored passwords\<close>

lemma users_old_or_hashed_kept:
  assumes "s \<in> issued e fx" and "users_old_or_hashed e (users fx) old d"
    and "run_stmt e k s d = Inr d'"
  shows "users_old_or_hashed e (users fx) old d'"
proof (cases "step_of s = Some 1")
  case False
  then have "rows (t_users d') = rows (t_users d)"
    using assms(3) by (cases s) (auto split: option.splits if_splits)
  with assms(2) show ?thesis by (simp add: users_old_or_hashed_def)
next
  case True
  with assms(1) consider (cr) "s = CreateUsers"
    | (ins) u h k' where "s = InsertUser (u\<lparr>u_password := h\<rparr>)" "u \<in> set (users fx)"
        "bcrypt_hash e k' (u_password u) 10 = Some h"
    by (auto simp: issued_def users_stmts_def customers_stmts_def invoices_stmts_def
        revenue_stmts_def)
  then show ?thesis
  proof cases
    case cr
    then have "rows (t_users d') = rows (t_users d)"
      using assms(3) by (auto split: option.splits)
    with assms(2) show ?thesis by (simp add: users_old_or_hashed_def)
  next
    case ins
    then have h: "hashed_from e (users fx) (u\<lparr>u_password := h\<rparr>)"
      unfolding hashed_from_def by blast
    from ins(1) assms(3) have "set (rows (t_users d')) \<subseteq> insert (u\<lparr>u_password := h\<rparr>) (set (rows (t_users d)))"
      by (auto split: option.splits if_splits)
    with assms(2) h show ?thesis unfolding users_old_or_hashed_def by blast
  qed
qed


text \<open>
  C5. The hashing is an opaque primitive: \<open>bcrypt_hash\<close> of the environment,
  and a check \<open>bcrypt_compare\<close> of which it is assumed that every hash is
  different from its plaintext and passes the check against it. Then every row
  that a run started on an idle connection adds to \<^verbatim>\<open>users\<close>, whatever the
  outcome, is a fixture user with the cost-10 hash of its plaintext as the
  password: different from the plaintext, and passing the check against it.
  After a run that went through, every fixture user has a row with its \<^verbatim>\<open>id\<close>.
\<close>

theorem stored_password_is_hash:
  assumes "txn c = Idle"
    and "\<forall>k p h. bcrypt_hash e k p 10 = Some h \<longrightarrow> h \<noteq> p \<and> bcrypt_compare p h"
    and "GET e fx c = (out, c')"
  shows "(\<forall>r \<in> set (rows (t_users (cur c'))) - set (rows (t_users (cur c))).
            \<exists>u \<in> set (users fx). \<exists>k.
              u_id r = u_id u \<and> u_name r = u_name u \<and> u_email r = u_email u \<and>
              bcrypt_hash e k (u_password u) 10 = Some (u_password r) \<and>
              u_password r \<noteq> u_password u \<and> bcrypt_compare (u_password u) (u_password r)) \<and>
         (out = success \<longrightarrow>
            (\<forall>u \<in> set (users fx). u_id u \<in> u_id ` set (rows (t_users (cur c')))))"
proof -
  let ?Q = "users_old_or_hashed e (users fx) (rows (t_users (cur c)))"
  have "holds ?Q c" using assms(1) by (simp add: holds_def users_old_or_hashed_def)
  then have "holds ?Q (snd (GET e fx c))"
    by (rule GET_holds [rotated]) (rule users_old_or_hashed_kept)
  then have Q: "?Q (cur c')" using assms(3) by (simp add: holds_def)
  have 1: "\<exists>u \<in> set (users fx). \<exists>k.
              u_id r = u_id u \<and> u_name r = u_name u \<and> u_email r = u_email u \<and>
              bcrypt_hash e k (u_password u) 10 = Some (u_password r) \<and>
              u_password r \<noteq> u_password u \<and> bcrypt_compare (u_password u) (u_password r)"
    if "r \<in> set (rows (t_users (cur c'))) - set (rows (t_users (cur c)))" for r
  proof -
    from that Q have "hashed_from e (users fx) r" by (auto simp: users_old_or_hashed_def)
    then obtain u k h where u: "u \<in> set (users fx)" "bcrypt_hash e k (u_password u) 10 = Some h"
      "r = u\<lparr>u_password := h\<rparr>" unfolding hashed_from_def by blast
    from assms(2) u(2) have "h \<noteq> u_password u" "bcrypt_compare (u_password u) h" by blast+
    with u show ?thesis by (intro bexI [of _ u] exI [of _ k]) simp_all
  qed
  have 2: "u_id u \<in> u_id ` set (rows (t_users (cur c')))"
    if "out = success" "u \<in> set (users fx)" for u
  proof -
    from that(1) assms(3) have "try_block e fx c = (None, c', [])"
      using GET_success [of e fx c] by simp
    from try_block_ok_tables(2) [OF this] obtain U where
      "t_users (cur c') = Some U" "u_id ` set (users fx) \<subseteq> u_id ` set U" by auto
    with that(2) show ?thesis by auto
  qed
  from 1 2 show ?thesis by blast
qed

theorem stored_password_is_hash_witness:
  "txn client0 = Idle \<and>
   GET env_ok fixtures1 client0 = (success, seeded1) \<and>
   t_users (cur seeded1) =
     Some [\<lparr>u_id = ''u1'', u_name = ''Amy'', u_email = ''amy@x.com'',
            u_password = ''$2b$secret''\<rparr>] \<and>
   (\<exists>u \<in> set (users fixtures1). \<exists>k.
      bcrypt_hash env_ok k (u_password u) 10 = Some ''$2b$secret'' \<and>
      ''$2b$secret'' \<noteq> u_password u \<and> ''$2b$secret'' = ''$2b$'' @ u_password u)"
proof -
  have a: "txn client0 = Idle" by (simp add: client0_def)
  have h: "\<forall>k p h. bcrypt_hash env_ok k p 10 = Some h \<longrightarrow> h \<noteq> p \<and> h = ''$2b$'' @ p"
    by (auto simp: env_ok_def)
  have b: "GET env_ok fixtures1 client0 = (success, seeded1)"
    by (simp add: seeded1_def success_def prod_eq_iff) (simp add: run_defs)
  have u: "t_users (cur seeded1) =
     Some [\<lparr>u_id = ''u1'', u_name = ''Amy'', u_email = ''amy@x.com'',
            u_password = ''$2b$secret''\<rparr>]"
    by (simp add: seeded1_def run_defs)
  have e: "rows (t_users (cur client0)) = []" by (simp add: client0_def empty_database_def)
  from stored_password_is_hash [of client0 env_ok "\<lambda>p h. h = ''$2b$'' @ p", OF a h b] u e
  have "\<exists>u \<in> set (users fixtures1). \<exists>k.
      bcrypt_hash env_ok k (u_password u) 10 = Some ''$2b$secret'' \<and>
      ''$2b$secret'' \<noteq> u_password u \<and> ''$2b$secret'' = ''$2b$'' @ u_password u"
    by simp blast
  with a b u show ?thesis by blast
qed

section \<open>Atomicity\<close>

text \<open>
  A \<^verbatim>\<open>try\<close> block that fails on an idle connection has committed nothing. When
  no INSERT is left to be sent behind the \<^verbatim>\<open>ROLLBACK\<close>, which is so for every
  failure outside \<^verbatim>\<open>seedUsers\<close>, the handler leaves the database as it was, and a
  run answered with status 500 leaves the session as it was.
\<close>

lemma in_block_sql:
  assumes "\<not> is_control s" and "in_block d c"
  shows "in_block d (snd (client_sql e s c))"
  using assms by (auto simp: in_block_def client_sql_def Let_def split: sum.splits)

lemma in_block_tick: "in_block d c \<Longrightarrow> in_block d (c\<lparr>clock := Suc (clock c)\<rparr>)"
  by (simp add: in_block_def)

lemma seedUsers_in_block:
  assumes "in_block d c" and "seedUsers e us c = (r, c', late)"
  shows "in_block d c'"
proof -
  have "in_block d c' \<and> set late \<subseteq> users_stmts e us"
  proof (rule seedUsers_inv [of "users_stmts e us" "in_block d" e us c r c' late])
    show "in_block d (snd (client_sql e s x))" if "s \<in> users_stmts e us" and "in_block d x" for s x
      using users_stmts_plain [OF that(1)] that(2) by (simp add: in_block_sql)
  qed (simp_all add: in_block_tick assms)
  then show ?thesis by simp
qed

lemma seedCustomers_in_block:
  assumes "in_block d c"
  shows "in_block d (snd (seedCustomers e cs c))"
proof (rule seedCustomers_inv [of "customers_stmts cs" "in_block d"])
  show "in_block d (snd (client_sql e s x))" if "s \<in> customers_stmts cs" and "in_block d x" for s x
    using customers_stmts_plain [OF that(1)] that(2) by (simp add: in_block_sql)
qed (simp_all add: assms)

lemma seedInvoices_in_block:
  assumes "in_block d c"
  shows "in_block d (snd (seedInvoices e is c))"
proof (rule seedInvoices_inv [of "invoices_stmts is" "in_block d"])
  show "in_block d (snd (client_sql e s x))" if "s \<in> invoices_stmts is" and "in_block d x" for s x
    using invoices_stmts_plain [OF that(1)] that(2) by (simp add: in_block_sql)
qed (simp_all add: assms)

lemma seedRevenue_in_block:
  assumes "in_block d c"
  shows "in_block d (snd (seedRevenue e rs c))"
proof (rule seedRevenue_inv [of "revenue_stmts rs" "in_block d"])
  show "in_block d (snd (client_sql e s x))" if "s \<in> revenue_stmts rs" and "in_block d x" for s x
    using revenue_stmts_plain [OF that(1)] that(2) by (simp add: in_block_sql)
qed (simp_all add: assms)

lemma begin_failed:
  assumes "txn c = Idle" and "client_sql e Begin c = (Some err, c1)"
  shows "txn c1 = Idle \<and> cur c1 = cur c"
  using assms by (auto simp: client_sql_def Let_def split: if_splits)

lemma begin_in_block:
  assumes "txn c = Idle" and "client_sql e Begin c = (None, c1)"
  shows "in_block (cur c) c1"
  using assms by (auto simp: in_block_def client_sql_def Let_def split: if_splits)

lemma commit_failed:
  assumes "in_block d c" and "client_sql e Commit c = (Some err, c1)"
  shows "in_block d c1"
  using assms by (auto simp: in_block_def client_sql_def Let_def split: if_splits)

lemma try_block_failed:
  assumes "txn c = Idle" and "try_block e fx c = (Some err, c', late)"
  shows "committed c' = cur c"
proof -
  obtain r1 c1 where c1: "client_sql e Begin c = (r1, c1)" by (cases "client_sql e Begin c")
  obtain r2 c2 l2 where c2: "seedUsers e (users fx) c1 = (r2, c2, l2)"
    by (cases "seedUsers e (users fx) c1")
  obtain r3 c3 where c3: "seedCustomers e (customers fx) c2 = (r3, c3)"
    by (cases "seedCustomers e (customers fx) c2")
  obtain r4 c4 where c4: "seedInvoices e (invoices fx) c3 = (r4, c4)"
    by (cases "seedInvoices e (invoices fx) c3")
  obtain r5 c5 where c5: "seedRevenue e (revenue fx) c4 = (r5, c5)"
    by (cases "seedRevenue e (revenue fx) c4")
  obtain r6 c6 where c6: "client_sql e Commit c5 = (r6, c6)" by (cases "client_sql e Commit c5")
  show ?thesis
  proof (cases r1)
    case (Some a)
    then have "c' = c1" using assms(2) c1 by (simp add: try_block_def)
    with begin_failed [OF assms(1)] c1 Some show ?thesis by (simp add: committed_def)
  next
    case None
    with c1 have b1: "in_block (cur c) c1" using begin_in_block [OF assms(1)] by simp
    have b2: "in_block (cur c) c2" using seedUsers_in_block [OF b1 c2] .
    have b3: "in_block (cur c) c3" using seedCustomers_in_block [OF b2, of e "customers fx"] c3 by simp
    have b4: "in_block (cur c) c4" using seedInvoices_in_block [OF b3, of e "invoices fx"] c4 by simp
    have b5: "in_block (cur c) c5" using seedRevenue_in_block [OF b4, of e "revenue fx"] c5 by simp
    have b6: "in_block (cur c) c6" if "r6 \<noteq> None"
      using that commit_failed [OF b5] c6 by auto
    have "c' = c2 \<or> c' = c3 \<or> c' = c4 \<or> c' = c5 \<or> (c' = c6 \<and> r6 \<noteq> None)"
      using assms(2) c1 c2 c3 c4 c5 c6 None
      by (auto simp: try_block_def split: option.splits)
    with b2 b3 b4 b5 b6 have "in_block (cur c) c'" by blast
    then show ?thesis by (auto simp: committed_def in_block_def)
  qed
qed

lemma try_block_late:
  assumes "try_block e fx c = (r, c', late)" and "late \<noteq> []"
  shows "fst (client_sql e Begin c) = None \<and>
         seedUsers e (users fx) (snd (client_sql e Begin c)) = (r, c', late) \<and> r \<noteq> None"
  using assms
  by (auto simp: try_block_def split: prod.splits option.splits)

lemma rollback_restores:
  assumes "txn c = Idle" and "try_block e fx c = (Some err, c1, [])"
  shows "committed (snd (GET e fx c)) = cur c"
    and "fst (GET e fx c) = Returned \<lparr>json = Error err, status = 500\<rparr> \<Longrightarrow>
           cur (snd (GET e fx c)) = cur c \<and> txn (snd (GET e fx c)) = Idle"
proof -
  have k: "committed c1 = cur c" using try_block_failed [OF assms] .
  obtain r2 c2 where c2: "client_sql e Rollback c1 = (r2, c2)" by (cases "client_sql e Rollback c1")
  have g: "GET e fx c = (case r2 of None \<Rightarrow> Returned \<lparr>json = Error err, status = 500\<rparr>
                                  | Some err' \<Rightarrow> Thrown err', c2)"
    using assms(2) c2 by (simp add: GET_def catch_block_def split: option.splits)
  show "committed (snd (GET e fx c)) = cur c"
    using k c2 g by (cases "txn c1") (auto simp: committed_def client_sql_def Let_def split: if_splits)
  show "cur (snd (GET e fx c)) = cur c \<and> txn (snd (GET e fx c)) = Idle"
    if "fst (GET e fx c) = Returned \<lparr>json = Error err, status = 500\<rparr>"
  proof -
    from that g have "r2 = None" by (cases r2) simp_all
    with k c2 g show ?thesis
      by (cases "txn c1") (auto simp: committed_def client_sql_def Let_def split: if_splits)
  qed
qed

text \<open>
  A rejected hashing settles \<^verbatim>\<open>Promise.all\<close> at once, so whatever the timing of
  the responses, the INSERT of a user whose hashing completes later is sent
  behind the \<^verbatim>\<open>ROLLBACK\<close>: here Bob is stored although the run is answered with
  status 500.
\<close>

lemma partial_seeding_after_failed_hash:
  "fst (GET env_hash_fails fixtures2 seeded1) =
     Returned \<lparr>json = Error HashFailed, status = 500\<rparr> \<and>
   t_users (cur (snd (GET env_hash_fails fixtures2 seeded1))) =
     Some [\<lparr>u_id = ''u1'', u_name = ''Amy'', u_email = ''amy@x.com'',
            u_password = ''$2b$secret''\<rparr>,
           \<lparr>u_id = ''u3'', u_name = ''Bob'', u_email = ''bob@x.com'',
            u_password = ''$2b$letmein''\<rparr>] \<and>
   log (snd (GET env_hash_fails fixtures2 seeded1)) =
     log seeded1 @
     [Begin, CreateExtension, CreateUsers, Rollback,
      InsertUser \<lparr>u_id = ''u3'', u_name = ''Bob'', u_email = ''bob@x.com'',
                   u_password = ''$2b$letmein''\<rparr>]"
  by (simp add: run_defs seeded1_def fixtures2_def env_hash_fails_def)

text \<open>
  C1. The handler's own comment says that a failed run is rolled back to
  prevent partial seeding. It is not so when a \<^verbatim>\<open>seedUsers\<close> callback is still
  hashing at the moment the \<^verbatim>\<open>catch\<close> block sends \<^verbatim>\<open>ROLLBACK\<close>. Here the \<^verbatim>\<open>users\<close>
  table exists and holds Amy; the first fixture user clashes with her email,
  so the run fails and is answered with status 500; the second user's
  hashing completes after that, its INSERT is sent behind the \<^verbatim>\<open>ROLLBACK\<close>,
  outside any transaction, and Bob stays in the table.
\<close>

theorem partial_seeding_after_rollback:
  "fst (GET env_ok fixtures2 seeded1) =
     Returned \<lparr>json = Error UniqueViolation, status = 500\<rparr> \<and>
   txn seeded1 = Idle \<and> txn (snd (GET env_ok fixtures2 seeded1)) = Idle \<and>
   t_users (cur seeded1) =
     Some [\<lparr>u_id = ''u1'', u_name = ''Amy'', u_email = ''amy@x.com'',
            u_password = ''$2b$secret''\<rparr>] \<and>
   t_users (cur (snd (GET env_ok fixtures2 seeded1))) =
     Some [\<lparr>u_id = ''u1'', u_name = ''Amy'', u_email = ''amy@x.com'',
            u_password = ''$2b$secret''\<rparr>,
           \<lparr>u_id = ''u3'', u_name = ''Bob'', u_email = ''bob@x.com'',
            u_password = ''$2b$letmein''\<rparr>] \<and>
   log (snd (GET env_ok fixtures2 seeded1)) =
     log seeded1 @
     [Begin, CreateExtension, CreateUsers,
      InsertUser \<lparr>u_id = ''u2'', u_name = ''Amy B'', u_email = ''amy@x.com'',
                   u_password = ''$2b$hunter2''\<rparr>,
      Rollback,
      InsertUser \<lparr>u_id = ''u3'', u_name = ''Bob'', u_email = ''bob@x.com'',
                   u_password = ''$2b$letmein''\<rparr>]"
  by (simp add: run_defs seeded1_def fixtures2_def)

end
